theory Spec2Isabelle
  imports Complex_Main "HOL-Library.Word" "HOL-Library.Multiset" "HOL-Library.Sublist"
begin

section \<open>Data model of the downloader worker\<close>

text \<open>
  The worker (\<^verbatim>\<open>downloader.ts\<close>) handles job entries \<^verbatim>\<open>Model\<close>, entries with a probed
  size \<^verbatim>\<open>ModelWithSize extends Model\<close>, per-entry outcomes \<^verbatim>\<open>FileResult\<close> and the
  process-wide \<^verbatim>\<open>StatusInternal\<close>. An optional field (\<^verbatim>\<open>sha256?: string\<close>) is an
  \<open>option\<close>. Sizes are byte counts: \<^verbatim>\<open>fetchFileSize\<close> returns the \<^verbatim>\<open>parseInt\<close> of a digit
  string or 0, so they are natural numbers here. The field \<^verbatim>\<open>size\<close> is called \<open>size_m\<close> and the field
  \<^verbatim>\<open>file\<close> is called \<open>file_r\<close>.
\<close>

type_synonym byte = "8 word"
type_synonym bytes = "byte list"

record Model =
  url :: string
  dest :: string
  sha256 :: "string option"

record ModelWithSize = Model +
  size_m :: nat

datatype file_status = Success | Failed | Skipped

record FileResult =
  file_r :: string
  status :: file_status
  reason :: "string option"

datatype phase_t = Preflight | Downloading | Completed | FailedPhase

text \<open>
  The environment of the process: the constants read from \<^verbatim>\<open>process.env\<close> at start.
  \<^verbatim>\<open>process.env.X || ""\<close> makes an unset variable the empty string.
\<close>

record env =
  TARGET_DIR :: string
  HF_TOKEN :: string
  CIVITAI_TOKEN :: string
  STATUS_TOKEN :: string

text \<open>
  The local file system as the worker observes it: a path is absent or holds the bytes
  of a file. \<^verbatim>\<open>statSync(p).size\<close> is the length of the content, and \<^verbatim>\<open>computeSha256\<close>
  is the digest of the content; the digest function itself is a parameter \<open>sha\<close>
  (node's \<^verbatim>\<open>crypto\<close> is not part of the repository).
\<close>

type_synonym fs = "string \<rightharpoonup> bytes"

definition destPath :: "env \<Rightarrow> 'a Model_scheme \<Rightarrow> string" where
  "destPath e m = TARGET_DIR e @ ''/'' @ dest m"

text \<open>JavaScript truthiness of a string and of an optional string.\<close>

definition truthy :: "string \<Rightarrow> bool" where
  "truthy s = (s \<noteq> [])"

definition truthy_opt :: "string option \<Rightarrow> bool" where
  "truthy_opt s = (case s of None \<Rightarrow> False | Some h \<Rightarrow> truthy h)"

section \<open>Preflight: the skip decision\<close>

record SkipDecision =
  skip :: bool
  skip_reason :: "string option"

definition checkNeedsDownload ::
  "(bytes \<Rightarrow> string) \<Rightarrow> env \<Rightarrow> fs \<Rightarrow> 'a Model_scheme \<Rightarrow> nat \<Rightarrow> SkipDecision" where
  "checkNeedsDownload sha e fsys m remoteSize =
     (case fsys (destPath e m) of
        None \<Rightarrow> \<lparr>skip = False, skip_reason = None\<rparr>
      | Some content \<Rightarrow>
          (let localSize = length content in
           if truthy_opt (sha256 m) then
             (if Some (sha content) = sha256 m
              then \<lparr>skip = True, skip_reason = Some ''hash match''\<rparr>
              else \<lparr>skip = False, skip_reason = None\<rparr>)
           else if remoteSize > 0 \<and> localSize = remoteSize
             then \<lparr>skip = True, skip_reason = Some ''size match''\<rparr>
           else if remoteSize > 0 \<and> localSize \<noteq> remoteSize
             then \<lparr>skip = False, skip_reason = None\<rparr>
           else \<lparr>skip = True, skip_reason = Some ''file exists''\<rparr>))"

section \<open>Strings\<close>

text \<open>
  \<^verbatim>\<open>String.prototype.includes\<close>: the pattern occurs somewhere in the text.
  A template literal prints a number in decimal (\<open>show_nat\<close>; JavaScript does so for
  every integer below \<open>10^21\<close>).
\<close>

fun includes_s :: "string \<Rightarrow> string \<Rightarrow> bool" where
  "includes_s [] pat = (pat = [])"
| "includes_s (c # cs) pat = (prefix pat (c # cs) \<or> includes_s cs pat)"

definition digit_char :: "nat \<Rightarrow> char" where
  "digit_char d = ''0123456789'' ! d"

function show_nat :: "nat \<Rightarrow> string" where
  "show_nat n = (if n < 10 then [digit_char n] else show_nat (n div 10) @ [digit_char (n mod 10)])"
  by pat_completeness auto
termination
  by (relation "measure id") auto

declare show_nat.simps [simp del]

section \<open>Authorization headers\<close>

type_synonym headers = "(string \<times> string) list"

definition getAuthHeaders :: "env \<Rightarrow> string \<Rightarrow> headers" where
  "getAuthHeaders e u =
     (if includes_s u ''huggingface.co'' \<and> truthy (HF_TOKEN e)
        then [(''Authorization'', ''Bearer '' @ HF_TOKEN e)]
      else if includes_s u ''civitai.com'' \<and> truthy (CIVITAI_TOKEN e)
        then [(''Authorization'', ''Bearer '' @ CIVITAI_TOKEN e)]
      else [])"

section \<open>Throughput samples\<close>

text \<open>
  \<^verbatim>\<open>speedSamples\<close> is a list of samples, \<^verbatim>\<open>Date.now()\<close> is the parameter \<open>now\<close>
  (milliseconds). \<^verbatim>\<open>recordBytes\<close> pushes a sample; \<^verbatim>\<open>getRecentSpeed\<close> shifts the samples
  older than the window off the front and returns the rate, together with the remaining
  samples. The quotient is taken in the reals (JavaScript's doubles agree on it up to
  rounding).
\<close>

record sample =
  time :: int
  bytes :: nat

definition SPEED_WINDOW_MS :: int where
  "SPEED_WINDOW_MS = 60000"

definition recordBytes :: "int \<Rightarrow> nat \<Rightarrow> sample list \<Rightarrow> sample list" where
  "recordBytes now n speedSamples = speedSamples @ [\<lparr>time = now, bytes = n\<rparr>]"

fun shift_old :: "int \<Rightarrow> sample list \<Rightarrow> sample list" where
  "shift_old cutoff [] = []"
| "shift_old cutoff (s # ss) = (if time s < cutoff then shift_old cutoff ss else s # ss)"

definition getRecentSpeed :: "int \<Rightarrow> sample list \<Rightarrow> real \<times> sample list" where
  "getRecentSpeed now speedSamples =
     (let cutoff = now - SPEED_WINDOW_MS;
          remaining = shift_old cutoff speedSamples
      in case remaining of
           [] \<Rightarrow> (0, remaining)
         | s0 # _ \<Rightarrow>
             (let totalBytes = sum_list (map bytes remaining);
                  elapsed = real_of_int (now - time s0) / 1000
              in (if elapsed > 0 then real totalBytes / elapsed else 0, remaining)))"

text \<open>
  A list of samples is \<open>chronological\<close> when the times do not decrease along it, as in a
  list pushed under a clock that never runs backwards.
\<close>

definition chronological :: "sample list \<Rightarrow> bool" where
  "chronological ss = sorted (map time ss)"

section \<open>Worker status and the status endpoint\<close>

text \<open>
  \<^verbatim>\<open>StatusInternal\<close>; the throughput \<^verbatim>\<open>speed\<close> is a real number. \<^verbatim>\<open>serializeStatus\<close>
  spreads the status and adds the three counts.
\<close>

record StatusInternal =
  phase :: phase_t
  currentFiles :: "string list"
  totalFiles :: nat
  overallDownloadedBytes :: nat
  overallTotalBytes :: nat
  speed :: real
  results :: "FileResult list"
  error :: "string option"

record StatusDocument = StatusInternal +
  success :: nat
  failed :: nat
  skipped :: nat

definition status0 :: StatusInternal where
  "status0 = \<lparr>phase = Preflight, currentFiles = [], totalFiles = 0,
     overallDownloadedBytes = 0, overallTotalBytes = 0, speed = 0, results = [], error = None\<rparr>"

definition serializeStatus :: "StatusInternal \<Rightarrow> StatusDocument" where
  "serializeStatus st =
     StatusInternal.extend st
       (StatusDocument.fields
          (length (filter (\<lambda>r. status r = Success) (results st)))
          (length (filter (\<lambda>r. status r = Failed) (results st)))
          (length (filter (\<lambda>r. status r = Skipped) (results st))))"

record http_request =
  req_method :: string
  req_url :: string
  req_authorization :: "string option"

record http_reply =
  code :: nat
  reply_headers :: headers
  reply_body :: "StatusDocument option"

text \<open>
  The request handler of \<^verbatim>\<open>startStatusServer\<close>. It receives the status and returns it
  with the reply, so that a write to the status would show.
\<close>

definition handler :: "env \<Rightarrow> http_request \<Rightarrow> StatusInternal \<Rightarrow> http_reply \<times> StatusInternal" where
  "handler e req st =
     (if truthy (STATUS_TOKEN e) \<and> req_authorization req \<noteq> Some (''Bearer '' @ STATUS_TOKEN e)
        then (\<lparr>code = 401, reply_headers = [], reply_body = None\<rparr>, st)
      else if req_url req = ''/status''
        then (\<lparr>code = 200, reply_headers = [(''Content-Type'', ''application/json'')],
               reply_body = Some (serializeStatus st)\<rparr>, st)
      else (\<lparr>code = 404, reply_headers = [], reply_body = None\<rparr>, st))"

section \<open>The network and the download of one entry\<close>

text \<open>
  What \<^verbatim>\<open>fetch\<close> gives: it rejects (\<open>NetworkError\<close>) or resolves with a response.
  The body of a response is a stream of chunks; \<open>broken\<close> says that \<^verbatim>\<open>reader.read()\<close>
  rejects after the last chunk (a dropped connection) instead of reporting the end.
  \<^verbatim>\<open>res.ok\<close> is a status from 200 to 299. The network answers a request, given by its URL
  and headers.
\<close>

record body_stream =
  chunks :: "bytes list"
  broken :: bool

record http_response =
  status_code :: nat
  statusText :: string
  body :: "body_stream option"

definition ok :: "http_response \<Rightarrow> bool" where
  "ok res = (200 \<le> status_code res \<and> status_code res \<le> 299)"

datatype fetch_outcome = NetworkError | Response http_response

type_synonym network = "string \<Rightarrow> headers \<Rightarrow> fetch_outcome"

record DownloadResult =
  dl_status :: file_status
  dl_reason :: "string option"

text \<open>A call returns a value or throws.\<close>

datatype 'a completion = Returns 'a | Throws

text \<open>
  \<^verbatim>\<open>downloadModel\<close>, run from its call to its return. Beside the result it gives the file
  system after the call, the byte counts passed to \<^verbatim>\<open>onProgress\<close> in order, and the
  requests sent. \<^verbatim>\<open>createWriteStream\<close> creates or truncates the file, each chunk is
  appended, and the hash is computed from the file as written.
\<close>

record download_run =
  outcome :: "DownloadResult completion"
  fs_after :: fs
  progress :: "nat list"
  requests :: "(string \<times> headers) list"

fun read_loop :: "bytes list \<Rightarrow> bytes \<Rightarrow> nat \<Rightarrow> nat list \<Rightarrow> bytes \<times> nat \<times> nat list" where
  "read_loop [] written totalWritten calls = (written, totalWritten, calls)"
| "read_loop (v # vs) written totalWritten calls =
     read_loop vs (written @ v) (totalWritten + length v) (calls @ [length v])"

definition size_mismatch_reason :: "nat \<Rightarrow> nat \<Rightarrow> string" where
  "size_mismatch_reason expected got =
     ''size mismatch: expected '' @ show_nat expected @ '', got '' @ show_nat got"

definition downloadModel ::
  "(bytes \<Rightarrow> string) \<Rightarrow> env \<Rightarrow> network \<Rightarrow> fs \<Rightarrow> ModelWithSize \<Rightarrow> download_run" where
  "downloadModel sha e net fsys m =
     (let req = (url m, getAuthHeaders e (url m)) in
      case net (url m) (getAuthHeaders e (url m)) of
        NetworkError \<Rightarrow>
          \<lparr>outcome = Throws, fs_after = fsys, progress = [], requests = [req]\<rparr>
      | Response res \<Rightarrow>
          if \<not> ok res then
            \<lparr>outcome = Returns \<lparr>dl_status = Failed,
                 dl_reason = Some (show_nat (status_code res) @ '' '' @ statusText res)\<rparr>,
             fs_after = fsys, progress = [], requests = [req]\<rparr>
          else
            (case body res of
               None \<Rightarrow>
                 \<lparr>outcome = Returns \<lparr>dl_status = Failed, dl_reason = Some ''no response body''\<rparr>,
                  fs_after = fsys, progress = [], requests = [req]\<rparr>
             | Some b \<Rightarrow>
                 (case read_loop (chunks b) [] 0 [] of
                    (written, totalWritten, calls) \<Rightarrow>
                      (let fsys' = fsys(destPath e m \<mapsto> written) in
                       if broken b then
                         \<lparr>outcome = Throws, fs_after = fsys', progress = calls, requests = [req]\<rparr>
                       else if size_m m > 0 \<and> totalWritten \<noteq> size_m m then
                         \<lparr>outcome = Returns \<lparr>dl_status = Failed,
                              dl_reason = Some (size_mismatch_reason (size_m m) totalWritten)\<rparr>,
                          fs_after = fsys', progress = calls, requests = [req]\<rparr>
                       else if truthy_opt (sha256 m) then
                         (case fsys' (destPath e m) of
                            None \<Rightarrow>
                              \<lparr>outcome = Throws, fs_after = fsys', progress = calls, requests = [req]\<rparr>
                          | Some content \<Rightarrow>
                              if Some (sha content) \<noteq> sha256 m then
                                \<lparr>outcome = Returns \<lparr>dl_status = Failed,
                                     dl_reason = Some ''hash mismatch''\<rparr>,
                                 fs_after = fsys', progress = calls, requests = [req]\<rparr>
                              else
                                \<lparr>outcome = Returns \<lparr>dl_status = Success, dl_reason = None\<rparr>,
                                 fs_after = fsys', progress = calls, requests = [req]\<rparr>)
                       else
                         \<lparr>outcome = Returns \<lparr>dl_status = Success, dl_reason = None\<rparr>,
                          fs_after = fsys', progress = calls, requests = [req]\<rparr>))))"

section \<open>The worker as a machine of resumable steps\<close>

text \<open>
  The worker is one thread of control that suspends at every \<^verbatim>\<open>await\<close>. A step of the
  model is the code that runs between two suspensions: of \<^verbatim>\<open>main\<close> (event \<open>Main\<close>) or of
  one call of \<^verbatim>\<open>downloadDomainQueue\<close> (event \<open>Queue k\<close> for the \<open>k\<close>-th host partition).
  The scheduler picks the events; an event whose code is not waiting changes nothing.
  The platform gives the digest function, the environment, the network, the size that
  \<^verbatim>\<open>fetchFileSize\<close> reports for an entry (\<open>probe\<close>, 0 for unknown), the \<^verbatim>\<open>MODELS\<close>
  variable (unset or empty, not parseable as JSON, or a job list), the URL parser and the
  clock. The URL parser is the platform's \<^verbatim>\<open>new URL(url).hostname\<close>, with \<open>None\<close> where the
  constructor throws; nothing is assumed about it. The clock gives the readings of
  \<^verbatim>\<open>Date.now()\<close> in the order of the calls (\<open>clock P i\<close> is what the call number \<open>i\<close>
  reads, in milliseconds); nothing is assumed about it either, so it may run backwards.
  The two readings that only go to the console (\<^verbatim>\<open>downloadStartTime\<close> and the elapsed
  time of the final summary) are left out, as the console is.
\<close>

datatype models_var = NotSet | BadJson | Json "Model list"

record platform =
  sha_of :: "bytes \<Rightarrow> string"
  penv :: env
  net :: network
  probe :: "Model \<Rightarrow> nat"
  MODELS :: models_var
  url_hostname :: "string \<Rightarrow> string option"
  clock :: "nat \<Rightarrow> int"

definition getDomain :: "platform \<Rightarrow> string \<Rightarrow> string option" where
  "getDomain P u = url_hostname P u"

text \<open>
  Where a call of \<^verbatim>\<open>downloadModel\<close> is suspended: at \<^verbatim>\<open>await fetch\<close>, at
  \<^verbatim>\<open>await reader.read()\<close> (with the chunks still to come, whether the stream breaks after
  them, and \<^verbatim>\<open>totalWritten\<close>), at \<^verbatim>\<open>await finished(fileStream)\<close>, at
  \<^verbatim>\<open>await computeSha256\<close>. One step runs to the next suspension, to the return or to a throw;
  it gives the file system and the argument of \<^verbatim>\<open>onProgress\<close> if it was called.
\<close>

datatype dl_state = Fetching | Reading "bytes list" bool nat | Flushing nat | Hashing

datatype dl_next = Continue dl_state | Finish DownloadResult | Abort

fun dl_step :: "platform \<Rightarrow> ModelWithSize \<Rightarrow> dl_state \<Rightarrow> fs \<Rightarrow> dl_next \<times> fs \<times> nat option" where
  "dl_step P m Fetching fsys =
     (case net P (url m) (getAuthHeaders (penv P) (url m)) of
        NetworkError \<Rightarrow> (Abort, fsys, None)
      | Response res \<Rightarrow>
          if \<not> ok res then
            (Finish \<lparr>dl_status = Failed,
               dl_reason = Some (show_nat (status_code res) @ '' '' @ statusText res)\<rparr>, fsys, None)
          else
            (case body res of
               None \<Rightarrow>
                 (Finish \<lparr>dl_status = Failed, dl_reason = Some ''no response body''\<rparr>, fsys, None)
             | Some b \<Rightarrow>
                 (Continue (Reading (chunks b) (broken b) 0),
                  fsys(destPath (penv P) m \<mapsto> []), None)))"
| "dl_step P m (Reading (v # vs) br totalWritten) fsys =
     (Continue (Reading vs br (totalWritten + length v)),
      fsys(destPath (penv P) m \<mapsto>
        (case fsys (destPath (penv P) m) of None \<Rightarrow> v | Some written \<Rightarrow> written @ v)),
      Some (length v))"
| "dl_step P m (Reading [] br totalWritten) fsys =
     (if br then (Abort, fsys, None) else (Continue (Flushing totalWritten), fsys, None))"
| "dl_step P m (Flushing totalWritten) fsys =
     (if size_m m > 0 \<and> totalWritten \<noteq> size_m m then
        (Finish \<lparr>dl_status = Failed,
           dl_reason = Some (size_mismatch_reason (size_m m) totalWritten)\<rparr>, fsys, None)
      else if truthy_opt (sha256 m) then (Continue Hashing, fsys, None)
      else (Finish \<lparr>dl_status = Success, dl_reason = None\<rparr>, fsys, None))"
| "dl_step P m Hashing fsys =
     (case fsys (destPath (penv P) m) of
        None \<Rightarrow> (Abort, fsys, None)
      | Some content \<Rightarrow>
          if Some (sha_of P content) \<noteq> sha256 m then
            (Finish \<lparr>dl_status = Failed, dl_reason = Some ''hash mismatch''\<rparr>, fsys, None)
          else (Finish \<lparr>dl_status = Success, dl_reason = None\<rparr>, fsys, None))"

text \<open>
  The steps of one call of \<^verbatim>\<open>downloadModel\<close> run one after the other, with the arguments of
  \<^verbatim>\<open>onProgress\<close> collected. The steps end: a step moves to a later suspension point or reads
  one more chunk.
\<close>

fun stage :: "dl_state \<Rightarrow> nat" where
  "stage Fetching = 3"
| "stage (Reading vs br n) = 2"
| "stage (Flushing n) = 1"
| "stage Hashing = 0"

fun chunks_left :: "dl_state \<Rightarrow> nat" where
  "chunks_left (Reading vs br n) = length vs"
| "chunks_left s = 0"

definition called :: "nat option \<Rightarrow> nat list" where
  "called callback = (case callback of None \<Rightarrow> [] | Some n \<Rightarrow> [n])"

function run_download ::
  "platform \<Rightarrow> ModelWithSize \<Rightarrow> dl_state \<Rightarrow> fs \<Rightarrow> nat list
     \<Rightarrow> DownloadResult completion \<times> fs \<times> nat list" where
  "run_download P m s fsys calls =
     (case dl_step P m s fsys of
        (Continue s', fsys', callback) \<Rightarrow> run_download P m s' fsys' (calls @ called callback)
      | (Finish r, fsys', callback) \<Rightarrow> (Returns r, fsys', calls @ called callback)
      | (Abort, fsys', callback) \<Rightarrow> (Throws, fsys', calls @ called callback))"
  by pat_completeness auto
termination
proof (relation "inv_image (less_than <*lex*> less_than)
    (\<lambda>(P, m, s, fsys, calls). (stage s, chunks_left s))")
  show "wf (inv_image (less_than <*lex*> less_than)
      (\<lambda>(P, m, s, fsys, calls). (stage s, chunks_left s)))"
    by (intro wf_inv_image wf_lex_prod wf_less_than)
next
  fix P m s fsys calls x y s' fsys' callback
  assume "(x, y) = dl_step P m s fsys" "x = Continue s'" "(fsys', callback) = y"
  then have "dl_step P m s fsys = (Continue s', fsys', callback)" by simp
  then have "stage s' < stage s \<or> (stage s' = stage s \<and> chunks_left s' < chunks_left s)"
    by (cases "(P, m, s, fsys)" rule: dl_step.cases)
       (auto split: fetch_outcome.splits if_splits option.splits)
  then show "((P, m, s', fsys', calls @ called callback), (P, m, s, fsys, calls))
      \<in> inv_image (less_than <*lex*> less_than)
          (\<lambda>(P, m, s, fsys, calls). (stage s, chunks_left s))"
    by auto
qed

declare run_download.simps [simp del]

text \<open>
  A host partition: the entries whose loop iteration is over, the entries from the current
  one on, and where the current download is suspended. The loop has returned when \<open>qrest\<close>
  is empty.
\<close>

record queue =
  qdone :: "ModelWithSize list"
  qrest :: "ModelWithSize list"
  qstate :: dl_state

datatype main_pc = AtStart | InPreflight | AwaitingQueues | Returned

text \<open>
  The state of the process: the status, the file system, the set \<^verbatim>\<open>activeFiles\<close> (in
  insertion order), the preflight loop (entries classified, entries pending, the list
  \<^verbatim>\<open>modelsWithSize\<close>), the host partitions, where \<^verbatim>\<open>main\<close> is suspended, whether an
  exception has escaped \<^verbatim>\<open>main\<close> (an unhandled rejection, which ends the process), the
  list \<^verbatim>\<open>speedSamples\<close>, and how many times the clock has been read.
\<close>

record world =
  wstatus :: StatusInternal
  disk :: fs
  activeFiles :: "string list"
  classified :: "Model list"
  pending :: "Model list"
  modelsWithSize :: "ModelWithSize list"
  queues :: "queue list"
  pc :: main_pc
  crashed :: bool
  speedSamples :: "sample list"
  ticks :: nat

definition init :: "fs \<Rightarrow> world" where
  "init fsys = \<lparr>wstatus = status0, disk = fsys, activeFiles = [], classified = [], pending = [],
     modelsWithSize = [], queues = [], pc = AtStart, crashed = False, speedSamples = [],
     ticks = 0\<rparr>"

definition set_add :: "string list \<Rightarrow> string \<Rightarrow> string list" where
  "set_add xs x = (if x \<in> set xs then xs else xs @ [x])"

definition set_delete :: "string list \<Rightarrow> string \<Rightarrow> string list" where
  "set_delete xs x = removeAll x xs"

text \<open>\<^verbatim>\<open>updateStatus\<close> reads the clock in \<^verbatim>\<open>getRecentSpeed\<close>, which also shifts the old
  samples off \<^verbatim>\<open>speedSamples\<close>; the caller passes the elements of \<^verbatim>\<open>activeFiles\<close>.\<close>

definition updateStatus :: "platform \<Rightarrow> world \<Rightarrow> world" where
  "updateStatus P w =
     (case getRecentSpeed (clock P (ticks w)) (speedSamples w) of
        (recent, remaining) \<Rightarrow>
          w\<lparr>wstatus := (wstatus w)\<lparr>speed := recent, currentFiles := activeFiles w\<rparr>,
            speedSamples := remaining, ticks := ticks w + 1\<rparr>)"

text \<open>The loop body of \<^verbatim>\<open>downloadDomainQueue\<close> before and after the call of \<^verbatim>\<open>downloadModel\<close>,
  and the progress callback, in which \<^verbatim>\<open>recordBytes\<close> reads the clock before \<^verbatim>\<open>updateStatus\<close>
  does.\<close>

definition start_entry :: "platform \<Rightarrow> ModelWithSize \<Rightarrow> world \<Rightarrow> world" where
  "start_entry P m w = updateStatus P (w\<lparr>activeFiles := set_add (activeFiles w) (dest m)\<rparr>)"

definition finish_entry :: "platform \<Rightarrow> ModelWithSize \<Rightarrow> DownloadResult \<Rightarrow> world \<Rightarrow> world" where
  "finish_entry P m r w =
     updateStatus P (w\<lparr>
       wstatus := (wstatus w)\<lparr>results := results (wstatus w) @
         [\<lparr>file_r = dest m, status = dl_status r, reason = dl_reason r\<rparr>]\<rparr>,
       activeFiles := set_delete (activeFiles w) (dest m)\<rparr>)"

definition on_progress :: "platform \<Rightarrow> nat \<Rightarrow> world \<Rightarrow> world" where
  "on_progress P n w =
     updateStatus P (w\<lparr>
       wstatus := (wstatus w)\<lparr>overallDownloadedBytes := overallDownloadedBytes (wstatus w) + n\<rparr>,
       speedSamples := recordBytes (clock P (ticks w)) n (speedSamples w),
       ticks := ticks w + 1\<rparr>)"

definition downloadDomainQueue_step :: "platform \<Rightarrow> nat \<Rightarrow> world \<Rightarrow> world" where
  "downloadDomainQueue_step P k w =
     (let q = queues w ! k in
      case qrest q of
        [] \<Rightarrow> w
      | m # ms \<Rightarrow>
          (case dl_step P m (qstate q) (disk w) of
             (nxt, disk', callback) \<Rightarrow>
               (let w1 = (case callback of
                            None \<Rightarrow> w\<lparr>disk := disk'\<rparr>
                          | Some n \<Rightarrow> on_progress P n (w\<lparr>disk := disk'\<rparr>))
                in case nxt of
                     Abort \<Rightarrow> w1\<lparr>crashed := True\<rparr>
                   | Continue s \<Rightarrow> w1\<lparr>queues := (queues w1)[k := q\<lparr>qstate := s\<rparr>]\<rparr>
                   | Finish r \<Rightarrow>
                       (let w2 = finish_entry P m r w1;
                            q' = \<lparr>qdone = qdone q @ [m], qrest = ms, qstate = Fetching\<rparr>
                        in case ms of
                             [] \<Rightarrow> w2\<lparr>queues := (queues w2)[k := q']\<rparr>
                           | m' # _ \<Rightarrow> (start_entry P m' w2)\<lparr>queues := (queues w2)[k := q']\<rparr>))))"

text \<open>\<^verbatim>\<open>Map.groupBy\<close>: the groups in the order of the first occurrence of their key, each in
  the order of the list.\<close>

fun groupBy_add :: "'k \<Rightarrow> 'a \<Rightarrow> ('k \<times> 'a list) list \<Rightarrow> ('k \<times> 'a list) list" where
  "groupBy_add k x [] = [(k, [x])]"
| "groupBy_add k x ((k', xs) # g) =
     (if k = k' then (k', xs @ [x]) # g else (k', xs) # groupBy_add k x g)"

definition groupBy :: "('a \<Rightarrow> 'k) \<Rightarrow> 'a list \<Rightarrow> ('k \<times> 'a list) list" where
  "groupBy f xs = foldl (\<lambda>g x. groupBy_add (f x) x g) [] xs"

text \<open>The calls of \<^verbatim>\<open>downloadDomainQueue\<close>, one per group in order: each runs to its first
  \<^verbatim>\<open>await\<close>.\<close>

fun start_queues :: "platform \<Rightarrow> ModelWithSize list list \<Rightarrow> world \<Rightarrow> world" where
  "start_queues P [] w = w"
| "start_queues P (domainModels # gs) w =
     start_queues P gs
       ((case domainModels of [] \<Rightarrow> w | m # _ \<Rightarrow> start_entry P m w)
          \<lparr>queues := queues w @ [\<lparr>qdone = [], qrest = domainModels, qstate = Fetching\<rparr>]\<rparr>)"

text \<open>One iteration of the preflight loop of \<^verbatim>\<open>main\<close>.\<close>

definition classify :: "platform \<Rightarrow> Model \<Rightarrow> world \<Rightarrow> world" where
  "classify P m w =
     (let size = probe P m;
          d = checkNeedsDownload (sha_of P) (penv P) (disk w) m size
      in if skip d then
           w\<lparr>wstatus := (wstatus w)\<lparr>results := results (wstatus w) @
                [\<lparr>file_r = dest m, status = Skipped, reason = skip_reason d\<rparr>]\<rparr>\<rparr>
         else
           w\<lparr>modelsWithSize := modelsWithSize w @
                [\<lparr>url = url m, dest = dest m, sha256 = sha256 m, size_m = size\<rparr>],
             wstatus := (wstatus w)\<lparr>overallTotalBytes := overallTotalBytes (wstatus w) + size\<rparr>\<rparr>)"

text \<open>\<^verbatim>\<open>main\<close> from the end of the preflight loop to \<^verbatim>\<open>await Promise.all\<close>. The phase is
  set before the entries are grouped; \<^verbatim>\<open>getDomain\<close> throws on a URL that does not parse.\<close>

definition after_preflight :: "platform \<Rightarrow> world \<Rightarrow> world" where
  "after_preflight P w =
     (if modelsWithSize w = [] then
        w\<lparr>wstatus := (wstatus w)\<lparr>phase := Completed\<rparr>, pc := Returned\<rparr>
      else
        (let w1 = w\<lparr>wstatus := (wstatus w)\<lparr>phase := Downloading\<rparr>\<rparr> in
         if \<exists>m \<in> set (modelsWithSize w). getDomain P (url m) = None then w1\<lparr>crashed := True\<rparr>
         else start_queues P (map snd (groupBy (\<lambda>m. getDomain P (url m)) (modelsWithSize w)))
                (w1\<lparr>pc := AwaitingQueues\<rparr>)))"

definition main_step :: "platform \<Rightarrow> world \<Rightarrow> world" where
  "main_step P w =
     (case pc w of
        AtStart \<Rightarrow>
          (case MODELS P of
             NotSet \<Rightarrow>
               w\<lparr>wstatus := (wstatus w)\<lparr>phase := FailedPhase,
                    error := Some ''MODELS environment variable is not set''\<rparr>,
                 pc := Returned\<rparr>
           | BadJson \<Rightarrow> w\<lparr>crashed := True\<rparr>
           | Json models \<Rightarrow>
               (let w1 = w\<lparr>wstatus := (wstatus w)\<lparr>totalFiles := length models\<rparr>,
                           pending := models, pc := InPreflight\<rparr>
                in if models = [] then after_preflight P w1 else w1))
      | InPreflight \<Rightarrow>
          (case pending w of
             [] \<Rightarrow> w
           | m # ms \<Rightarrow>
               (let w1 = (classify P m w)\<lparr>classified := classified w @ [m], pending := ms\<rparr>
                in if ms = [] then after_preflight P w1 else w1))
      | AwaitingQueues \<Rightarrow>
          (if \<forall>q \<in> set (queues w). qrest q = [] then
             w\<lparr>wstatus := (wstatus w)\<lparr>phase :=
                  (if failed (serializeStatus (wstatus w)) > 0 then FailedPhase else Completed)\<rparr>,
               pc := Returned\<rparr>
           else w)
      | Returned \<Rightarrow> w)"

datatype event = Main | Queue nat

definition exec :: "platform \<Rightarrow> event \<Rightarrow> world \<Rightarrow> world" where
  "exec P ev w =
     (if crashed w then w
      else case ev of
             Main \<Rightarrow> main_step P w
           | Queue k \<Rightarrow>
               if pc w = AwaitingQueues \<and> k < length (queues w)
               then downloadDomainQueue_step P k w else w)"

definition run :: "platform \<Rightarrow> event list \<Rightarrow> world \<Rightarrow> world" where
  "run P evs w = foldl (\<lambda>w ev. exec P ev w) w evs"

section \<open>Observations on a run of the worker\<close>

text \<open>
  What the properties below speak about: the job list (empty when \<^verbatim>\<open>MODELS\<close> gives none),
  whether the preflight classifies an entry as
  requiring download (on the file system \<open>fsys\<close>), the entry with its probed size, the
  hostname of an entry, the entries in flight (the current entry of every host partition
  whose loop has not returned), the entries whose download has terminated, the bytes
  that the network sends as the body for an entry, the bytes received so far by a host
  partition, and the percentage that the progress ticker prints (before rounding).
\<close>

definition job_list :: "platform \<Rightarrow> Model list" where
  "job_list P = (case MODELS P of Json models \<Rightarrow> models | _ \<Rightarrow> [])"

definition needs_download :: "platform \<Rightarrow> fs \<Rightarrow> Model \<Rightarrow> bool" where
  "needs_download P fsys m =
     (\<not> skip (checkNeedsDownload (sha_of P) (penv P) fsys m (probe P m)))"

definition with_size :: "platform \<Rightarrow> Model \<Rightarrow> ModelWithSize" where
  "with_size P m = \<lparr>url = url m, dest = dest m, sha256 = sha256 m, size_m = probe P m\<rparr>"

definition host_of :: "platform \<Rightarrow> ModelWithSize \<Rightarrow> string option" where
  "host_of P m = getDomain P (url m)"

definition in_flight :: "world \<Rightarrow> ModelWithSize list" where
  "in_flight w = concat (map (\<lambda>q. take 1 (qrest q)) (queues w))"

definition terminated :: "world \<Rightarrow> ModelWithSize list" where
  "terminated w = concat (map qdone (queues w))"

definition streams :: "platform \<Rightarrow> ModelWithSize \<Rightarrow> bool" where
  "streams P m =
     (case net P (url m) (getAuthHeaders (penv P) (url m)) of
        NetworkError \<Rightarrow> False
      | Response res \<Rightarrow> ok res \<and> body res \<noteq> None)"

definition received :: "platform \<Rightarrow> ModelWithSize \<Rightarrow> nat" where
  "received P m =
     (case net P (url m) (getAuthHeaders (penv P) (url m)) of
        NetworkError \<Rightarrow> 0
      | Response res \<Rightarrow>
          if \<not> ok res then 0
          else (case body res of None \<Rightarrow> 0 | Some b \<Rightarrow> sum_list (map length (chunks b))))"

definition received_current :: "platform \<Rightarrow> ModelWithSize \<Rightarrow> dl_state \<Rightarrow> nat" where
  "received_current P m s =
     (case s of
        Fetching \<Rightarrow> 0
      | Reading vs br n \<Rightarrow> n
      | Flushing n \<Rightarrow> n
      | Hashing \<Rightarrow> received P m)"

definition received_so_far :: "platform \<Rightarrow> queue \<Rightarrow> nat" where
  "received_so_far P q =
     sum_list (map (received P) (qdone q))
       + (case qrest q of [] \<Rightarrow> 0 | m # _ \<Rightarrow> received_current P m (qstate q))"

definition percent :: "StatusInternal \<Rightarrow> real" where
  "percent st =
     (if overallTotalBytes st > 0
      then real (overallDownloadedBytes st) / real (overallTotalBytes st) * 100
      else 0)"

section \<open>Invariants of the worker\<close>

text \<open>\<open>grouped f xs g\<close>: \<open>g\<close> partitions \<open>xs\<close> by the key \<open>f\<close>, each group in the order of
  \<open>xs\<close>.\<close>

definition grouped :: "('a \<Rightarrow> 'k) \<Rightarrow> 'a list \<Rightarrow> ('k \<times> 'a list) list \<Rightarrow> bool" where
  "grouped f xs g =
     (distinct (map fst g) \<and> fst ` set g = f ` set xs
      \<and> (\<forall>p \<in> set g. snd p = filter (\<lambda>y. f y = fst p) xs))"

definition extend_group :: "'k \<Rightarrow> 'a \<Rightarrow> 'k \<times> 'a list \<Rightarrow> 'k \<times> 'a list" where
  "extend_group k x p = (if fst p = k then (fst p, snd p @ [x]) else p)"

text \<open>A host partition as \<^verbatim>\<open>downloadDomainQueue\<close> starts it, and after a step of its
  download.\<close>

definition new_queue :: "ModelWithSize list \<Rightarrow> queue" where
  "new_queue g = \<lparr>qdone = [], qrest = g, qstate = Fetching\<rparr>"

definition queue_after :: "queue \<Rightarrow> dl_next \<Rightarrow> queue" where
  "queue_after q nxt =
     (case nxt of
        Abort \<Rightarrow> q
      | Continue s \<Rightarrow> q\<lparr>qstate := s\<rparr>
      | Finish r \<Rightarrow> \<lparr>qdone = qdone q @ take 1 (qrest q), qrest = tl (qrest q), qstate = Fetching\<rparr>)"

text \<open>The bookkeeping of the preflight loop, relative to the file system \<open>fs0\<close> at the
  start.\<close>

definition inv_pre :: "platform \<Rightarrow> fs \<Rightarrow> world \<Rightarrow> bool" where
  "inv_pre P fs0 w =
     ((pc w = AtStart \<or> pc w = InPreflight \<longrightarrow> disk w = fs0 \<and> queues w = [])
      \<and> modelsWithSize w = map (with_size P) (filter (needs_download P fs0) (classified w))
      \<and> map file_r (filter (\<lambda>r. status r = Skipped) (results (wstatus w)))
          = map dest (filter (\<lambda>m. \<not> needs_download P fs0 m) (classified w))
      \<and> overallTotalBytes (wstatus w)
          = sum_list (map (probe P) (filter (needs_download P fs0) (classified w)))
      \<and> (pc w = AtStart \<longrightarrow> classified w = [] \<and> pending w = [] \<and> wstatus w = status0)
      \<and> (pc w \<noteq> AtStart \<longrightarrow>
            classified w @ pending w = job_list P
            \<and> totalFiles (wstatus w) = length (job_list P))
      \<and> (pc w = AwaitingQueues \<or> pc w = Returned \<longrightarrow> pending w = []))"

text \<open>The host partitions, once they exist, are the groups of \<^verbatim>\<open>modelsWithSize\<close>; the
  results that are not skips are those of the terminated downloads.\<close>

definition inv_queues :: "platform \<Rightarrow> world \<Rightarrow> bool" where
  "inv_queues P w =
     ((pc w = AtStart \<or> pc w = InPreflight \<longrightarrow> queues w = [])
      \<and> (pc w = AwaitingQueues \<or> pc w = Returned \<longrightarrow>
           map (\<lambda>q. qdone q @ qrest q) (queues w) = map snd (groupBy (host_of P) (modelsWithSize w)))
      \<and> mset (map file_r (filter (\<lambda>r. status r \<noteq> Skipped) (results (wstatus w))))
          = mset (map dest (terminated w))
      \<and> (pc w = Returned \<longrightarrow> (\<forall>q \<in> set (queues w). qrest q = [])))"

text \<open>Where \<^verbatim>\<open>main\<close> is suspended determines the phase; the preflight loop is suspended
  only with an entry pending.\<close>

definition inv_phase :: "world \<Rightarrow> bool" where
  "inv_phase w =
     ((pc w = AtStart \<longrightarrow> phase (wstatus w) = Preflight)
      \<and> (pc w = InPreflight \<longrightarrow>
            phase (wstatus w) = Preflight \<or> (crashed w \<and> phase (wstatus w) = Downloading))
      \<and> (pc w = AwaitingQueues \<longrightarrow> phase (wstatus w) = Downloading)
      \<and> (pc w = Returned \<longrightarrow>
            phase (wstatus w) = Completed \<or> phase (wstatus w) = FailedPhase)
      \<and> (pc w = InPreflight \<and> \<not> crashed w \<longrightarrow> pending w \<noteq> []))"

definition queue_ok :: "platform \<Rightarrow> queue \<Rightarrow> bool" where
  "queue_ok P q =
     (case qrest q of
        [] \<Rightarrow> True
      | m # _ \<Rightarrow>
          (case qstate q of
             Fetching \<Rightarrow> True
           | Reading vs br n \<Rightarrow> streams P m \<and> n + sum_list (map length vs) = received P m
           | Flushing n \<Rightarrow> n = received P m
           | Hashing \<Rightarrow> True))"

definition inv_bytes :: "platform \<Rightarrow> world \<Rightarrow> bool" where
  "inv_bytes P w =
     (overallDownloadedBytes (wstatus w) = sum_list (map (received_so_far P) (queues w))
      \<and> (\<forall>q \<in> set (queues w). queue_ok P q))"

text \<open>\<^verbatim>\<open>main\<close> after it has read the job list, and after one iteration of the preflight
  loop.\<close>

definition begun :: "Model list \<Rightarrow> world \<Rightarrow> world" where
  "begun ms w =
     w\<lparr>wstatus := (wstatus w)\<lparr>totalFiles := length ms\<rparr>, pending := ms, pc := InPreflight\<rparr>"

definition classified_one :: "platform \<Rightarrow> Model \<Rightarrow> Model list \<Rightarrow> world \<Rightarrow> world" where
  "classified_one P m ms w = (classify P m w)\<lparr>classified := classified w @ [m], pending := ms\<rparr>"

text \<open>The changes of phase that a step can make: to downloading and to completed at the
  end of the preflight, to failed at the start when there is no job list, and from
  downloading to the terminal phase when all host partitions have finished.\<close>

definition phase_edge :: "platform \<Rightarrow> fs \<Rightarrow> world \<Rightarrow> world \<Rightarrow> bool" where
  "phase_edge P fs0 w w' =
     ((phase (wstatus w) = Preflight \<and> phase (wstatus w') = Downloading
         \<and> (\<exists>m \<in> set (job_list P). needs_download P fs0 m))
      \<or> (phase (wstatus w) = Preflight \<and> phase (wstatus w') = Completed
         \<and> MODELS P \<noteq> NotSet \<and> (\<forall>m \<in> set (job_list P). \<not> needs_download P fs0 m))
      \<or> (phase (wstatus w) = Preflight \<and> phase (wstatus w') = FailedPhase
         \<and> MODELS P = NotSet
         \<and> error (wstatus w') = Some ''MODELS environment variable is not set''
         \<and> results (wstatus w') = [])
      \<or> (phase (wstatus w) = Downloading \<and> (\<forall>q \<in> set (queues w). qrest q = [])
         \<and> phase (wstatus w') =
             (if \<exists>r \<in> set (results (wstatus w')). status r = Failed
              then FailedPhase else Completed)))"

text \<open>
  The throughput. \<open>pushed P ev w\<close> is the sample that the step of \<open>ev\<close> pushes from the state
  \<open>w\<close>: the progress callback calls \<^verbatim>\<open>recordBytes\<close> once, with the length of the chunk and
  the next reading of the clock. \<open>recorded\<close> collects the samples pushed along a run, in
  order; it forgets nothing, unlike \<^verbatim>\<open>speedSamples\<close>. \<open>last_reading\<close> is the clock as it
  was last read (its first reading while it has not been read).
\<close>

definition pushed :: "platform \<Rightarrow> event \<Rightarrow> world \<Rightarrow> sample list" where
  "pushed P ev w =
     (case ev of
        Main \<Rightarrow> []
      | Queue k \<Rightarrow>
          if crashed w \<or> pc w \<noteq> AwaitingQueues \<or> length (queues w) \<le> k then []
          else (case qrest (queues w ! k) of
                  [] \<Rightarrow> []
                | m # _ \<Rightarrow>
                    (case snd (snd (dl_step P m (qstate (queues w ! k)) (disk w))) of
                       None \<Rightarrow> []
                     | Some n \<Rightarrow> [\<lparr>time = clock P (ticks w), bytes = n\<rparr>])))"

definition recorded :: "platform \<Rightarrow> event list \<Rightarrow> world \<Rightarrow> sample list" where
  "recorded P evs w =
     snd (foldl (\<lambda>(w', h) ev. (exec P ev w', h @ pushed P ev w')) (w, []) evs)"

definition last_reading :: "platform \<Rightarrow> world \<Rightarrow> int" where
  "last_reading P w = clock P (ticks w - 1)"

text \<open>
  The reported figure is the one of the last computation, which the remaining samples give
  again. Under a clock that never runs backwards, and relative to the samples \<open>h\<close> recorded
  so far: before a reading of the clock the samples are in order, not later than the
  reading, and \<^verbatim>\<open>speedSamples\<close> holds those of a window that ends at \<open>c\<close>, not later than
  the reading either; after a step the window ends at the last reading.
\<close>

definition inv_speed :: "platform \<Rightarrow> world \<Rightarrow> bool" where
  "inv_speed P w =
     (speed (wstatus w) = fst (getRecentSpeed (last_reading P w) (speedSamples w))
      \<and> (ticks w = 0 \<longrightarrow> speedSamples w = []))"

definition samples_ready :: "platform \<Rightarrow> world \<Rightarrow> sample list \<Rightarrow> int \<Rightarrow> bool" where
  "samples_ready P w h c =
     (chronological h
      \<and> (\<forall>s \<in> set h. time s \<le> clock P (ticks w))
      \<and> c \<le> clock P (ticks w)
      \<and> speedSamples w = filter (\<lambda>s. c - time s \<le> 60000) h)"

definition inv_history :: "platform \<Rightarrow> world \<Rightarrow> sample list \<Rightarrow> bool" where
  "inv_history P w h =
     (chronological h
      \<and> (\<forall>s \<in> set h. time s \<le> last_reading P w)
      \<and> speedSamples w = filter (\<lambda>s. last_reading P w - time s \<le> 60000) h
      \<and> (ticks w = 0 \<longrightarrow> h = []))"

definition inv_rate :: "platform \<Rightarrow> world \<Rightarrow> sample list \<Rightarrow> bool" where
  "inv_rate P w h = (inv_speed P w \<and> (mono (clock P) \<longrightarrow> inv_history P w h))"

text \<open>The number of steps that the download of an entry, and a host partition, can still
  take: one per chunk of the response body, and at most four around them.\<close>

definition body_chunks :: "platform \<Rightarrow> ModelWithSize \<Rightarrow> nat" where
  "body_chunks P m =
     (case net P (url m) (getAuthHeaders (penv P) (url m)) of
        NetworkError \<Rightarrow> 0
      | Response res \<Rightarrow>
          if \<not> ok res then 0
          else (case body res of None \<Rightarrow> 0 | Some b \<Rightarrow> length (chunks b)))"

definition steps_left :: "platform \<Rightarrow> ModelWithSize \<Rightarrow> dl_state \<Rightarrow> nat" where
  "steps_left P m s =
     (case s of
        Fetching \<Rightarrow> body_chunks P m + 4
      | Reading vs br n \<Rightarrow> length vs + 3
      | Flushing n \<Rightarrow> 2
      | Hashing \<Rightarrow> 1)"

definition work :: "platform \<Rightarrow> queue \<Rightarrow> nat" where
  "work P q =
     (case qrest q of
        [] \<Rightarrow> 0
      | m # ms \<Rightarrow> steps_left P m (qstate q) + sum_list (map (\<lambda>m'. body_chunks P m' + 4) ms))"

section \<open>The orchestration poller\<close>

text \<open>
  \<^verbatim>\<open>setup.ts\<close>. \<^verbatim>\<open>fetchStatus\<close> gives the status document that the worker serves, or
  \<^verbatim>\<open>null\<close> on a network error, a status outside 2xx or a timeout. The polls that an attempt
  sees are a script: what each \<^verbatim>\<open>fetchStatus\<close> gives and what \<^verbatim>\<open>Date.now()\<close> reads after
  it. The loop has no bound of its own: on a script that ends before the loop returns, the
  result is \<open>None\<close>.
\<close>

datatype poll_result = Status StatusDocument | Unresponsive

fun pollDownloadProgress ::
  "int \<Rightarrow> int \<Rightarrow> (StatusDocument option \<times> int) list \<Rightarrow> poll_result option" where
  "pollDownloadProgress unresponsiveTimeoutMs lastSuccessTime [] = None"
| "pollDownloadProgress unresponsiveTimeoutMs lastSuccessTime ((fetched, now) # polls) =
     (case fetched of
        Some st \<Rightarrow>
          if phase st = Completed \<or> phase st = FailedPhase then Some (Status st)
          else pollDownloadProgress unresponsiveTimeoutMs now polls
      | None \<Rightarrow>
          if now - lastSuccessTime \<ge> unresponsiveTimeoutMs then Some Unresponsive
          else pollDownloadProgress unresponsiveTimeoutMs lastSuccessTime polls)"

text \<open>
  The calls of the control-plane client return or throw. \<^verbatim>\<open>waitForPodRunning\<close> reads the
  clock, asks for the pod and looks at its desired status, until it is running or the
  time is over; its script gives each clock reading and what \<^verbatim>\<open>getPod\<close> gives after it.
\<close>

datatype thrown = ApiError | Error string

fun waitForPodRunning ::
  "int \<Rightarrow> int \<Rightarrow> (int \<times> (thrown + string)) list \<Rightarrow> (thrown + bool) option" where
  "waitForPodRunning timeoutMs start [] = None"
| "waitForPodRunning timeoutMs start ((now, got) # rest) =
     (if now - start < timeoutMs then
        (case got of
           Inl err \<Rightarrow> Some (Inl err)
         | Inr desired \<Rightarrow>
             if desired = ''RUNNING'' then Some (Inr True)
             else waitForPodRunning timeoutMs start rest)
      else Some (Inr False))"

text \<open>
  A pod as the loop of \<^verbatim>\<open>setup\<close> reads it, and what the world gives to one attempt: the
  pod found by name, the outcome of deleting it, the bytes of \<^verbatim>\<open>randomBytes(16)\<close> in
  hexadecimal, the outcome of \<^verbatim>\<open>createPod\<close>, the scripts of the wait and of the polls with
  the clock at their start, and the outcome of deleting the pod of the attempt. The calls
  that change the world are logged.
\<close>

record Pod =
  pod_id :: string
  desiredStatus :: string
  env_STATUS_TOKEN :: "string option"

record attempt_env =
  found :: "thrown + Pod option"
  stale_deleted :: "thrown + unit"
  random_hex :: string
  created :: "thrown + Pod"
  wait_start :: int
  wait_script :: "(int \<times> (thrown + string)) list"
  poll_start :: int
  poll_script :: "(StatusDocument option \<times> int) list"
  deleted :: "thrown + unit"

datatype action = DeletePod string | CreateDownloaderPod string | PollStatus string string

datatype attempt_end = Retry | Final StatusDocument | Throw thrown | Hang

definition delete_then :: "attempt_env \<Rightarrow> string \<Rightarrow> attempt_end \<Rightarrow> action list
    \<Rightarrow> attempt_end \<times> action list" where
  "delete_then e cpuPodId after acts =
     (case deleted e of
        Inl err \<Rightarrow> (Throw err, acts @ [DeletePod cpuPodId])
      | Inr _ \<Rightarrow> (after, acts @ [DeletePod cpuPodId]))"

definition with_pod :: "attempt_env \<Rightarrow> string \<Rightarrow> string \<Rightarrow> action list
    \<Rightarrow> attempt_end \<times> action list" where
  "with_pod e cpuPodId statusToken acts =
     (case waitForPodRunning 180000 (wait_start e) (wait_script e) of
        None \<Rightarrow> (Hang, acts)
      | Some (Inl err) \<Rightarrow> (Throw err, acts)
      | Some (Inr started) \<Rightarrow>
          if \<not> started then delete_then e cpuPodId Retry acts
          else
            (case pollDownloadProgress 180000 (poll_start e) (poll_script e) of
               None \<Rightarrow> (Hang, acts @ [PollStatus cpuPodId statusToken])
             | Some Unresponsive \<Rightarrow>
                 delete_then e cpuPodId Retry (acts @ [PollStatus cpuPodId statusToken])
             | Some (Status result) \<Rightarrow>
                 delete_then e cpuPodId (Final result) (acts @ [PollStatus cpuPodId statusToken])))"

definition create_then :: "attempt_env \<Rightarrow> action list \<Rightarrow> attempt_end \<times> action list" where
  "create_then e acts =
     (let statusToken = random_hex e in
      case created e of
        Inl err \<Rightarrow> (Throw err, acts @ [CreateDownloaderPod statusToken])
      | Inr pod \<Rightarrow> with_pod e (pod_id pod) statusToken (acts @ [CreateDownloaderPod statusToken]))"

text \<open>One iteration of the loop of \<^verbatim>\<open>setup\<close>.\<close>

definition attempt_body :: "attempt_env \<Rightarrow> nat \<Rightarrow> attempt_end \<times> action list" where
  "attempt_body e attempt =
     (case found e of
        Inl err \<Rightarrow> (Throw err, [])
      | Inr existingPod \<Rightarrow>
          (let live = (case existingPod of
                         None \<Rightarrow> None
                       | Some p \<Rightarrow> if desiredStatus p \<noteq> ''TERMINATED'' then Some p else None)
           in case (case live of
                      Some p \<Rightarrow>
                        if attempt > 1 then
                          (case stale_deleted e of
                             Inl err \<Rightarrow> (Some err, [DeletePod (pod_id p)])
                           | Inr _ \<Rightarrow> (None, [DeletePod (pod_id p)]))
                        else (None, [])
                    | None \<Rightarrow> (None, [])) of
                (Some err, acts) \<Rightarrow> (Throw err, acts)
              | (None, acts) \<Rightarrow>
                  (case live of
                     Some p \<Rightarrow>
                       if attempt = 1 then
                         (let statusToken =
                                (case env_STATUS_TOKEN p of None \<Rightarrow> [] | Some t \<Rightarrow> t)
                          in if \<not> truthy statusToken
                             then (Throw (Error ''Existing pod has no STATUS_TOKEN in env''), acts)
                             else with_pod e (pod_id p) statusToken acts)
                       else create_then e acts
                   | None \<Rightarrow> create_then e acts)))"

definition maxAttempts :: nat where
  "maxAttempts = 5"

datatype loop_end = Exit "StatusDocument option" | Thrown thrown | Hung

text \<open>The loop \<^verbatim>\<open>for (let attempt = 1; attempt <= maxAttempts; attempt++)\<close>, from the
  iteration \<open>attempt\<close> on; \<open>E\<close> gives the world of each attempt.\<close>

function attempts :: "(nat \<Rightarrow> attempt_env) \<Rightarrow> nat \<Rightarrow> loop_end \<times> action list" where
  "attempts E attempt =
     (if attempt \<le> maxAttempts then
        (case attempt_body (E attempt) attempt of
           (Retry, acts) \<Rightarrow>
             (case attempts E (attempt + 1) of (r, acts') \<Rightarrow> (r, acts @ acts'))
         | (Final finalStatus, acts) \<Rightarrow> (Exit (Some finalStatus), acts)
         | (Throw err, acts) \<Rightarrow> (Thrown err, acts)
         | (Hang, acts) \<Rightarrow> (Hung, acts))
      else (Exit None, []))"
  by pat_completeness auto
termination
  by (relation "measure (\<lambda>(E, attempt). maxAttempts + 1 - attempt)") auto

declare attempts.simps [simp del]

text \<open>\<^verbatim>\<open>setup\<close> from the loop to its end: what it returns or throws (\<open>None\<close> while it still
  waits), and the logged calls.\<close>

definition setup_download ::
  "(nat \<Rightarrow> attempt_env) \<Rightarrow> (thrown + StatusDocument) option \<times> action list" where
  "setup_download E =
     (case attempts E 1 of
        (Hung, acts) \<Rightarrow> (None, acts)
      | (Thrown err, acts) \<Rightarrow> (Some (Inl err), acts)
      | (Exit None, acts) \<Rightarrow>
          (Some (Inl (Error (''Download failed after '' @ show_nat maxAttempts
             @ '' attempts due to unresponsive pods''))), acts)
      | (Exit (Some finalStatus), acts) \<Rightarrow>
          if phase finalStatus = FailedPhase then
            (Some (Inl (Error (''Download failed: '' @ show_nat (failed finalStatus)
               @ '' file(s) failed. ''
               @ (case error finalStatus of None \<Rightarrow> [] | Some msg \<Rightarrow> msg)))), acts)
          else (Some (Inr finalStatus), acts))"

text \<open>The clock of the last successful poll of a script, \<open>t\<close> when there is none.\<close>

fun last_success :: "int \<Rightarrow> (StatusDocument option \<times> int) list \<Rightarrow> int" where
  "last_success t [] = t"
| "last_success t ((fetched, now) # polls) =
     last_success (case fetched of None \<Rightarrow> t | Some _ \<Rightarrow> now) polls"

section \<open>Example inputs\<close>

text \<open>Concrete inputs on which the theorems below are instantiated; \<open>sha_ex\<close> is a toy digest.\<close>

definition env_ex :: env where
  "env_ex = \<lparr>TARGET_DIR = ''/w'', HF_TOKEN = ''hf'', CIVITAI_TOKEN = ''cv'', STATUS_TOKEN = ''st''\<rparr>"

definition sha_ex :: "bytes \<Rightarrow> string" where
  "sha_ex c = (if c = [] then ''e3b0'' else ''d1ce'')"

definition model_ex :: "string \<Rightarrow> string \<Rightarrow> string option \<Rightarrow> Model" where
  "model_ex u d h = \<lparr>url = u, dest = d, sha256 = h\<rparr>"

definition sized_ex :: "string \<Rightarrow> string \<Rightarrow> string option \<Rightarrow> nat \<Rightarrow> ModelWithSize" where
  "sized_ex u d h n = \<lparr>url = u, dest = d, sha256 = h, size_m = n\<rparr>"

definition net_ex :: network where
  "net_ex u h =
     (if u = ''https://a.example/gone'' then
        Response \<lparr>status_code = 404, statusText = ''Not Found'', body = None\<rparr>
      else if u = ''https://a.example/empty'' then
        Response \<lparr>status_code = 200, statusText = ''OK'', body = None\<rparr>
      else if u = ''https://b.example/down'' then NetworkError
      else Response \<lparr>status_code = 200, statusText = ''OK'',
             body = Some \<lparr>chunks = [[1, 2], [3]], broken = False\<rparr>\<rparr>)"

definition status_ex :: StatusInternal where
  "status_ex = \<lparr>phase = Downloading, currentFiles = [''m2.bin''], totalFiles = 2,
     overallDownloadedBytes = 3, overallTotalBytes = 10, speed = 3 / 2,
     results = [\<lparr>file_r = ''m1.bin'', status = Skipped, reason = Some ''size match''\<rparr>],
     error = None\<rparr>"

definition request_ex :: "string \<Rightarrow> string option \<Rightarrow> http_request" where
  "request_ex u a = \<lparr>req_method = ''GET'', req_url = u, req_authorization = a\<rparr>"

definition samples_ex :: "sample list" where
  "samples_ex = [\<lparr>time = 10, bytes = 5\<rparr>, \<lparr>time = 50000, bytes = 100\<rparr>,
     \<lparr>time = 90000, bytes = 200\<rparr>]"

text \<open>
  A job list of four entries on two hosts, with the first one already on disk, and a
  schedule that runs it to the end: the preflight, the two host partitions interleaved,
  the end of \<^verbatim>\<open>main\<close>.
\<close>

definition models_ex :: "Model list" where
  "models_ex =
     [model_ex ''https://a.example/m1'' ''m1.bin'' None,
      model_ex ''https://a.example/m2'' ''m2.bin'' (Some ''d1ce''),
      model_ex ''https://b.example/m3'' ''m3.bin'' None,
      model_ex ''https://a.example/gone'' ''m4.bin'' None]"

definition probe_ex :: "Model \<Rightarrow> nat" where
  "probe_ex m = (if dest m = ''m3.bin'' then 2 else if dest m = ''m4.bin'' then 0 else 3)"

text \<open>
  The hostnames that the URL parser gives to the URLs of the examples (it is applied to no
  other URL there), and a clock that advances by 20 seconds from one reading to the next.
\<close>

definition hostname_ex :: "string \<Rightarrow> string option" where
  "hostname_ex u =
     map_of
       [(''https://a.example/m1'', ''a.example''),
        (''https://a.example/m2'', ''a.example''),
        (''https://a.example/gone'', ''a.example''),
        (''https://b.example/m3'', ''b.example''),
        (''https://b.example/down'', ''b.example''),
        (''https://example.com/a'', ''example.com''),
        (''https://example.com/huggingface.co'', ''example.com'')] u"

definition clock_ex :: "nat \<Rightarrow> int" where
  "clock_ex i = 1000000 + 20000 * int i"

definition platform_ex :: platform where
  "platform_ex = \<lparr>sha_of = sha_ex, penv = env_ex, net = net_ex, probe = probe_ex,
     MODELS = Json models_ex, url_hostname = hostname_ex, clock = clock_ex\<rparr>"

definition disk_ex :: fs where
  "disk_ex = [''/w/m1.bin'' \<mapsto> [7, 8, 9]]"

definition schedule_ex :: "event list" where
  "schedule_ex = [Main, Main, Main, Main, Main,
     Queue 0, Queue 1, Queue 0, Queue 0, Queue 0, Queue 0, Queue 0, Queue 0,
     Queue 1, Queue 1, Queue 1, Queue 1, Main]"

text \<open>
  The same platform with a clock that runs backwards once: the readings number 2 to 5
  are those of the two calls of the progress callback for the first body.
\<close>

definition clock_back :: "nat \<Rightarrow> int" where
  "clock_back i = (if i < 6 then [1, 2, 50000, 50001, 10, 100000] ! i else 100000)"

definition platform_back :: platform where
  "platform_back = platform_ex\<lparr>clock := clock_back\<rparr>"

text \<open>
  A job list of two entries on two hosts, none on disk; the host of the first one refuses
  the connection, so that the probe gives 0 for it and \<^verbatim>\<open>fetch\<close> rejects in
  \<^verbatim>\<open>downloadModel\<close>. The schedule runs the preflight and then the partition of that host.
\<close>

definition models_down :: "Model list" where
  "models_down =
     [model_ex ''https://b.example/down'' ''m5.bin'' None,
      model_ex ''https://a.example/m2'' ''m2.bin'' None]"

definition platform_down :: platform where
  "platform_down = platform_ex\<lparr>MODELS := Json models_down,
     probe := (\<lambda>m. if dest m = ''m5.bin'' then 0 else 3)\<rparr>"

definition schedule_down :: "event list" where
  "schedule_down = [Main, Main, Main, Queue 0]"

text \<open>
  A world in which every attempt finds no pod, creates one that starts, and gets no answer
  from the status endpoint for 180 seconds.
\<close>

definition attempt_env_ex :: "nat \<Rightarrow> attempt_env" where
  "attempt_env_ex i =
     \<lparr>found = Inr None, stale_deleted = Inr (), random_hex = ''token'' @ show_nat i,
      created = Inr \<lparr>pod_id = ''pod'' @ show_nat i, desiredStatus = ''RUNNING'',
        env_STATUS_TOKEN = Some (''token'' @ show_nat i)\<rparr>,
      wait_start = 0, wait_script = [(1000, Inr ''RUNNING'')],
      poll_start = 0, poll_script = [(None, 3000), (None, 180000)],
      deleted = Inr ()\<rparr>"

section \<open>Properties of the skip decision\<close>

text \<open>
  C1. The skip decision follows the precedence: (1) no local file at the destination:
  download; (2) a local file and a configured hash: skipped with reason "hash match"
  exactly when the digest of the local file equals the configured hash, download
  otherwise, whatever the sizes are; (3) no configured hash, remote size known (nonzero)
  and equal to the local size: skipped with reason "size match"; (4) remote size known
  and different from the local size: download; (5) remote size unknown: skipped with
  reason "file exists". A hash is configured when \<^verbatim>\<open>model.sha256\<close> is truthy.
\<close>

theorem checkNeedsDownload_precedence:
  "(fsys (destPath e m) = None \<longrightarrow>
      checkNeedsDownload sha e fsys m rs = \<lparr>skip = False, skip_reason = None\<rparr>)
   \<and> (\<forall>c. fsys (destPath e m) = Some c \<and> truthy_opt (sha256 m) \<longrightarrow>
         ((checkNeedsDownload sha e fsys m rs = \<lparr>skip = True, skip_reason = Some ''hash match''\<rparr>)
            = (Some (sha c) = sha256 m))
         \<and> (Some (sha c) \<noteq> sha256 m \<longrightarrow>
              checkNeedsDownload sha e fsys m rs = \<lparr>skip = False, skip_reason = None\<rparr>))
   \<and> (\<forall>c. fsys (destPath e m) = Some c \<and> \<not> truthy_opt (sha256 m) \<and> rs \<noteq> 0 \<and> rs = length c \<longrightarrow>
         checkNeedsDownload sha e fsys m rs = \<lparr>skip = True, skip_reason = Some ''size match''\<rparr>)
   \<and> (\<forall>c. fsys (destPath e m) = Some c \<and> \<not> truthy_opt (sha256 m) \<and> rs \<noteq> 0 \<and> rs \<noteq> length c \<longrightarrow>
         checkNeedsDownload sha e fsys m rs = \<lparr>skip = False, skip_reason = None\<rparr>)
   \<and> (\<forall>c. fsys (destPath e m) = Some c \<and> \<not> truthy_opt (sha256 m) \<and> rs = 0 \<longrightarrow>
         checkNeedsDownload sha e fsys m rs = \<lparr>skip = True, skip_reason = Some ''file exists''\<rparr>)"
  by (auto simp: checkNeedsDownload_def Let_def)

theorem checkNeedsDownload_precedence_witness:
  "checkNeedsDownload sha_ex env_ex Map.empty (model_ex ''https://a.example/m1'' ''m1.bin'' None) 1000
     = \<lparr>skip = False, skip_reason = None\<rparr>
   \<and> checkNeedsDownload sha_ex env_ex [''/w/m1.bin'' \<mapsto> [1, 2, 3]]
        (model_ex ''https://a.example/m1'' ''m1.bin'' (Some ''d1ce'')) 1000
     = \<lparr>skip = True, skip_reason = Some ''hash match''\<rparr>
   \<and> checkNeedsDownload sha_ex env_ex [''/w/m1.bin'' \<mapsto> [1, 2, 3]]
        (model_ex ''https://a.example/m1'' ''m1.bin'' (Some ''ffff'')) 3
     = \<lparr>skip = False, skip_reason = None\<rparr>
   \<and> checkNeedsDownload sha_ex env_ex [''/w/m1.bin'' \<mapsto> [1, 2, 3]]
        (model_ex ''https://a.example/m1'' ''m1.bin'' None) 3
     = \<lparr>skip = True, skip_reason = Some ''size match''\<rparr>
   \<and> checkNeedsDownload sha_ex env_ex [''/w/m1.bin'' \<mapsto> [1, 2, 3]]
        (model_ex ''https://a.example/m1'' ''m1.bin'' None) 4
     = \<lparr>skip = False, skip_reason = None\<rparr>
   \<and> checkNeedsDownload sha_ex env_ex [''/w/m1.bin'' \<mapsto> [1, 2, 3]]
        (model_ex ''https://a.example/m1'' ''m1.bin'' None) 0
     = \<lparr>skip = True, skip_reason = Some ''file exists''\<rparr>"
  using
    checkNeedsDownload_precedence [of Map.empty env_ex
      "model_ex ''https://a.example/m1'' ''m1.bin'' None" sha_ex 1000]
    checkNeedsDownload_precedence [of "[''/w/m1.bin'' \<mapsto> [1, 2, 3]]" env_ex
      "model_ex ''https://a.example/m1'' ''m1.bin'' (Some ''d1ce'')" sha_ex 1000]
    checkNeedsDownload_precedence [of "[''/w/m1.bin'' \<mapsto> [1, 2, 3]]" env_ex
      "model_ex ''https://a.example/m1'' ''m1.bin'' (Some ''ffff'')" sha_ex 3]
    checkNeedsDownload_precedence [of "[''/w/m1.bin'' \<mapsto> [1, 2, 3]]" env_ex
      "model_ex ''https://a.example/m1'' ''m1.bin'' None" sha_ex 3]
    checkNeedsDownload_precedence [of "[''/w/m1.bin'' \<mapsto> [1, 2, 3]]" env_ex
      "model_ex ''https://a.example/m1'' ''m1.bin'' None" sha_ex 4]
    checkNeedsDownload_precedence [of "[''/w/m1.bin'' \<mapsto> [1, 2, 3]]" env_ex
      "model_ex ''https://a.example/m1'' ''m1.bin'' None" sha_ex 0]
  by (simp add: env_ex_def sha_ex_def model_ex_def sized_ex_def destPath_def truthy_opt_def truthy_def)

section \<open>Properties of the download of one entry\<close>

lemma read_loop_eq:
  "read_loop vs written tw calls =
     (written @ concat vs, tw + sum_list (map length vs), calls @ map length vs)"
  by (induction vs arbitrary: written tw calls) auto

text \<open>
  C2. The result of the download of one entry: a response with a non-success status gives
  failed with the status code and text as reason; a response without body gives failed
  with reason "no response body"; otherwise, once the stream has been written to the end,
  a known nonzero probed size that differs from the bytes written gives failed with reason
  "size mismatch: expected <size>, got <written>"; otherwise a configured hash that differs
  from the hash of the written file gives failed with reason "hash mismatch"; in all
  remaining cases the result is success. With a configured hash every success comes with a
  matching hash of the written file. Whatever the outcome, exactly one request is sent: no
  failure is retried.
\<close>

theorem downloadModel_classification:
  "(\<forall>res. nw (url m) (getAuthHeaders e (url m)) = Response res \<and> \<not> ok res \<longrightarrow>
      outcome (downloadModel sha e nw fsys m) =
        Returns \<lparr>dl_status = Failed,
                 dl_reason = Some (show_nat (status_code res) @ '' '' @ statusText res)\<rparr>)
   \<and> (\<forall>res. nw (url m) (getAuthHeaders e (url m)) = Response res \<and> ok res \<and> body res = None \<longrightarrow>
      outcome (downloadModel sha e nw fsys m) =
        Returns \<lparr>dl_status = Failed, dl_reason = Some ''no response body''\<rparr>)
   \<and> (\<forall>res b. nw (url m) (getAuthHeaders e (url m)) = Response res \<and> ok res
          \<and> body res = Some b \<and> \<not> broken b \<longrightarrow>
        fs_after (downloadModel sha e nw fsys m) (destPath e m) = Some (concat (chunks b))
        \<and> (if size_m m \<noteq> 0 \<and> size_m m \<noteq> length (concat (chunks b)) then
             outcome (downloadModel sha e nw fsys m) =
               Returns \<lparr>dl_status = Failed,
                 dl_reason = Some (''size mismatch: expected '' @ show_nat (size_m m)
                    @ '', got '' @ show_nat (length (concat (chunks b))))\<rparr>
           else if truthy_opt (sha256 m) \<and> Some (sha (concat (chunks b))) \<noteq> sha256 m then
             outcome (downloadModel sha e nw fsys m) =
               Returns \<lparr>dl_status = Failed, dl_reason = Some ''hash mismatch''\<rparr>
           else
             outcome (downloadModel sha e nw fsys m) =
               Returns \<lparr>dl_status = Success, dl_reason = None\<rparr>))
   \<and> (\<forall>r. truthy_opt (sha256 m) \<and> outcome (downloadModel sha e nw fsys m) = Returns r
          \<and> dl_status r = Success \<longrightarrow>
        (\<exists>c. fs_after (downloadModel sha e nw fsys m) (destPath e m) = Some c
            \<and> Some (sha c) = sha256 m))
   \<and> requests (downloadModel sha e nw fsys m) = [(url m, getAuthHeaders e (url m))]"
  by (auto simp: downloadModel_def read_loop_eq Let_def size_mismatch_reason_def length_concat
           split: fetch_outcome.splits option.splits)

theorem downloadModel_classification_witness:
  "outcome (downloadModel sha_ex env_ex net_ex Map.empty
      (sized_ex ''https://a.example/gone'' ''m0.bin'' None 3))
     = Returns \<lparr>dl_status = Failed, dl_reason = Some ''404 Not Found''\<rparr>
   \<and> outcome (downloadModel sha_ex env_ex net_ex Map.empty
      (sized_ex ''https://a.example/empty'' ''m0.bin'' None 3))
     = Returns \<lparr>dl_status = Failed, dl_reason = Some ''no response body''\<rparr>
   \<and> outcome (downloadModel sha_ex env_ex net_ex Map.empty
      (sized_ex ''https://a.example/m1'' ''m1.bin'' None 4))
     = Returns \<lparr>dl_status = Failed, dl_reason = Some ''size mismatch: expected 4, got 3''\<rparr>
   \<and> outcome (downloadModel sha_ex env_ex net_ex Map.empty
      (sized_ex ''https://a.example/m1'' ''m1.bin'' (Some ''ffff'') 3))
     = Returns \<lparr>dl_status = Failed, dl_reason = Some ''hash mismatch''\<rparr>
   \<and> outcome (downloadModel sha_ex env_ex net_ex Map.empty
      (sized_ex ''https://a.example/m1'' ''m1.bin'' (Some ''d1ce'') 0))
     = Returns \<lparr>dl_status = Success, dl_reason = None\<rparr>
   \<and> fs_after (downloadModel sha_ex env_ex net_ex Map.empty
      (sized_ex ''https://a.example/m1'' ''m1.bin'' (Some ''d1ce'') 0)) ''/w/m1.bin''
     = Some [1, 2, 3]"
  using
    downloadModel_classification [of net_ex
      "sized_ex ''https://a.example/gone'' ''m0.bin'' None 3" env_ex sha_ex Map.empty]
    downloadModel_classification [of net_ex
      "sized_ex ''https://a.example/empty'' ''m0.bin'' None 3" env_ex sha_ex Map.empty]
    downloadModel_classification [of net_ex
      "sized_ex ''https://a.example/m1'' ''m1.bin'' None 4" env_ex sha_ex Map.empty]
    downloadModel_classification [of net_ex
      "sized_ex ''https://a.example/m1'' ''m1.bin'' (Some ''ffff'') 3" env_ex sha_ex Map.empty]
    downloadModel_classification [of net_ex
      "sized_ex ''https://a.example/m1'' ''m1.bin'' (Some ''d1ce'') 0" env_ex sha_ex Map.empty]
  by (simp add: env_ex_def sha_ex_def model_ex_def sized_ex_def net_ex_def ok_def destPath_def
        truthy_opt_def truthy_def getAuthHeaders_def digit_char_def show_nat.simps)

section \<open>Properties of the authorization header\<close>

text \<open>
  C6, as claimed: the authorization header depends on the hostname of the URL alone, and a
  URL whose hostname is neither known host carries no token. The two URLs below have the
  same hostname \<^verbatim>\<open>example.com\<close>; with the HF token configured, one gets no header and
  the other the HF token.
\<close>

theorem getAuthHeaders_hostname_counterexample:
  "getDomain platform_ex ''https://example.com/a'' = Some ''example.com''
   \<and> getDomain platform_ex ''https://example.com/huggingface.co'' = Some ''example.com''
   \<and> getAuthHeaders (penv platform_ex) ''https://example.com/a'' = []
   \<and> getAuthHeaders (penv platform_ex) ''https://example.com/huggingface.co''
        = [(''Authorization'', ''Bearer hf'')]"
  by (simp add: getDomain_def platform_ex_def hostname_ex_def getAuthHeaders_def truthy_def
        env_ex_def)

lemma includes_s_iff: "includes_s u p = sublist p u"
  by (induction u) (auto simp: sublist_Cons_right)

lemma getAuthHeaders_cases:
  "(includes_s u ''huggingface.co'' \<and> HF_TOKEN e \<noteq> [] \<longrightarrow>
      getAuthHeaders e u = [(''Authorization'', ''Bearer '' @ HF_TOKEN e)])
   \<and> (\<not> (includes_s u ''huggingface.co'' \<and> HF_TOKEN e \<noteq> [])
        \<and> includes_s u ''civitai.com'' \<and> CIVITAI_TOKEN e \<noteq> [] \<longrightarrow>
      getAuthHeaders e u = [(''Authorization'', ''Bearer '' @ CIVITAI_TOKEN e)])
   \<and> (\<not> (includes_s u ''huggingface.co'' \<and> HF_TOKEN e \<noteq> [])
        \<and> \<not> (includes_s u ''civitai.com'' \<and> CIVITAI_TOKEN e \<noteq> []) \<longrightarrow>
      getAuthHeaders e u = [])"
  unfolding getAuthHeaders_def truthy_def by simp

lemma getAuthHeaders_same_text:
  "includes_s v ''huggingface.co'' = includes_s u ''huggingface.co''
    \<Longrightarrow> includes_s v ''civitai.com'' = includes_s u ''civitai.com''
    \<Longrightarrow> getAuthHeaders e v = getAuthHeaders e u"
  unfolding getAuthHeaders_def by simp

text \<open>
  C6, amended. The authorization header is determined by the text of the whole URL and by
  the tokens that are configured: a URL that contains \<^verbatim>\<open>huggingface.co\<close> gets a bearer header
  with the HF token when that token is not empty; otherwise a URL that contains
  \<^verbatim>\<open>civitai.com\<close> gets a bearer header with the Civitai token when that token is not empty;
  any other URL gets no authorization header. To contain a name is to have it as a
  contiguous part, anywhere in the URL; two URLs that contain the same known host names get
  the same header.
\<close>

theorem getAuthHeaders_by_url_text:
  "(includes_s u ''huggingface.co'' \<and> HF_TOKEN e \<noteq> [] \<longrightarrow>
      getAuthHeaders e u = [(''Authorization'', ''Bearer '' @ HF_TOKEN e)])
   \<and> (\<not> (includes_s u ''huggingface.co'' \<and> HF_TOKEN e \<noteq> [])
        \<and> includes_s u ''civitai.com'' \<and> CIVITAI_TOKEN e \<noteq> [] \<longrightarrow>
      getAuthHeaders e u = [(''Authorization'', ''Bearer '' @ CIVITAI_TOKEN e)])
   \<and> (\<not> (includes_s u ''huggingface.co'' \<and> HF_TOKEN e \<noteq> [])
        \<and> \<not> (includes_s u ''civitai.com'' \<and> CIVITAI_TOKEN e \<noteq> []) \<longrightarrow>
      getAuthHeaders e u = [])
   \<and> (\<forall>pat. includes_s u pat = (\<exists>before after. u = before @ pat @ after))
   \<and> (\<forall>v. includes_s v ''huggingface.co'' = includes_s u ''huggingface.co''
        \<and> includes_s v ''civitai.com'' = includes_s u ''civitai.com'' \<longrightarrow>
      getAuthHeaders e v = getAuthHeaders e u)"
  (is "?hf \<and> ?cv \<and> ?none \<and> ?incl \<and> ?same")
proof -
  note cases = getAuthHeaders_cases [of u e]
  have 1: ?hf and 2: ?cv and 3: ?none
    using cases by (rule conjunct1, rule conjunct2 [THEN conjunct1], rule conjunct2 [THEN conjunct2])
  have 4: ?incl
    unfolding includes_s_iff sublist_def by (rule allI, rule refl)
  have 5: ?same
    by (intro allI impI, elim conjE, rule getAuthHeaders_same_text)
  from 1 2 3 4 5 show ?thesis
    by (intro conjI)
qed

theorem getAuthHeaders_by_url_text_witness:
  "getAuthHeaders env_ex ''https://huggingface.co/org/model.bin'' = [(''Authorization'', ''Bearer hf'')]
   \<and> getAuthHeaders env_ex ''https://civitai.com/api/download/1'' = [(''Authorization'', ''Bearer cv'')]
   \<and> getAuthHeaders env_ex ''https://example.com/file.bin'' = []
   \<and> getAuthHeaders env_ex ''https://example.com/huggingface.co''
        = getAuthHeaders env_ex ''https://huggingface.co/org/model.bin''"
  using
    getAuthHeaders_by_url_text [of "''https://huggingface.co/org/model.bin''" env_ex]
    getAuthHeaders_by_url_text [of "''https://civitai.com/api/download/1''" env_ex]
    getAuthHeaders_by_url_text [of "''https://example.com/file.bin''" env_ex]
  by (simp add: env_ex_def)

section \<open>Properties of the status endpoint\<close>

text \<open>
  C7. For every request to the status server: a request for \<^verbatim>\<open>/status\<close> is answered 200 with
  the JSON status document (the status fields and the three counts) when its bearer token
  matches the configured status token or no status token is configured; a request whose
  token does not match the configured token is answered 401 with an empty body, whatever
  its path; an authorized request for any other path is answered 404 with an empty body.
  The handler leaves the worker status as it is. (The 401 check comes first, as in the
  sentence of the specification that a request without a matching token is rejected before
  anything else.)
\<close>

theorem handler_replies:
  "(req_url req = ''/status''
      \<and> (STATUS_TOKEN e = [] \<or> req_authorization req = Some (''Bearer '' @ STATUS_TOKEN e)) \<longrightarrow>
      fst (handler e req st) =
        \<lparr>code = 200, reply_headers = [(''Content-Type'', ''application/json'')],
         reply_body = Some (serializeStatus st)\<rparr>)
   \<and> (STATUS_TOKEN e \<noteq> [] \<and> req_authorization req \<noteq> Some (''Bearer '' @ STATUS_TOKEN e) \<longrightarrow>
      fst (handler e req st) = \<lparr>code = 401, reply_headers = [], reply_body = None\<rparr>)
   \<and> (req_url req \<noteq> ''/status''
      \<and> (STATUS_TOKEN e = [] \<or> req_authorization req = Some (''Bearer '' @ STATUS_TOKEN e)) \<longrightarrow>
      fst (handler e req st) = \<lparr>code = 404, reply_headers = [], reply_body = None\<rparr>)
   \<and> snd (handler e req st) = st
   \<and> StatusInternal.truncate (serializeStatus st) = st
   \<and> success (serializeStatus st) = length (filter (\<lambda>r. status r = Success) (results st))
   \<and> failed (serializeStatus st) = length (filter (\<lambda>r. status r = Failed) (results st))
   \<and> skipped (serializeStatus st) = length (filter (\<lambda>r. status r = Skipped) (results st))"
  by (simp add: handler_def truthy_def serializeStatus_def StatusInternal.extend_def
        StatusInternal.truncate_def StatusDocument.fields_def)

theorem handler_replies_witness:
  "code (fst (handler env_ex (request_ex ''/status'' (Some ''Bearer st'')) status_ex)) = 200
   \<and> skipped (the (reply_body (fst (handler env_ex (request_ex ''/status'' (Some ''Bearer st'')) status_ex)))) = 1
   \<and> fst (handler (env_ex\<lparr>STATUS_TOKEN := []\<rparr>) (request_ex ''/status'' None) status_ex)
       = \<lparr>code = 200, reply_headers = [(''Content-Type'', ''application/json'')],
         reply_body = Some (serializeStatus status_ex)\<rparr>
   \<and> fst (handler env_ex (request_ex ''/status'' (Some ''Bearer wrong'')) status_ex)
       = \<lparr>code = 401, reply_headers = [], reply_body = None\<rparr>
   \<and> fst (handler env_ex (request_ex ''/status'' None) status_ex)
       = \<lparr>code = 401, reply_headers = [], reply_body = None\<rparr>
   \<and> fst (handler env_ex (request_ex ''/other'' (Some ''Bearer st'')) status_ex)
       = \<lparr>code = 404, reply_headers = [], reply_body = None\<rparr>"
  using
    handler_replies [of "request_ex ''/status'' (Some ''Bearer st'')" env_ex status_ex]
    handler_replies [of "request_ex ''/status'' None" "env_ex\<lparr>STATUS_TOKEN := []\<rparr>" status_ex]
    handler_replies [of "request_ex ''/status'' (Some ''Bearer wrong'')" env_ex status_ex]
    handler_replies [of "request_ex ''/status'' None" env_ex status_ex]
    handler_replies [of "request_ex ''/other'' (Some ''Bearer st'')" env_ex status_ex]
  by (simp add: env_ex_def request_ex_def status_ex_def)

section \<open>Properties of the throughput\<close>

lemma shift_old_filter:
  "sorted (map time ss) \<Longrightarrow> shift_old cutoff ss = filter (\<lambda>s. \<not> time s < cutoff) ss"
proof (induction ss)
  case Nil
  then show ?case by simp
next
  case (Cons s ss)
  show ?case
  proof (cases "time s < cutoff")
    case True
    with Cons show ?thesis by simp
  next
    case False
    with Cons.prems have "\<forall>x \<in> set ss. \<not> time x < cutoff" by auto
    then have "filter (\<lambda>s. \<not> time s < cutoff) ss = ss" by simp
    with False show ?thesis by simp
  qed
qed

lemma shift_old_idem: "shift_old cutoff (shift_old cutoff ss) = shift_old cutoff ss"
  by (induction ss) auto

lemma chronological_recordBytes:
  "chronological ss \<Longrightarrow> \<forall>s \<in> set ss. time s \<le> now \<Longrightarrow> chronological (recordBytes now n ss)"
  by (auto simp: chronological_def recordBytes_def sorted_append)

lemma snd_getRecentSpeed:
  "snd (getRecentSpeed now ss) = shift_old (now - SPEED_WINDOW_MS) ss"
  by (simp add: getRecentSpeed_def Let_def split: list.splits)

lemma fst_getRecentSpeed:
  "fst (getRecentSpeed now ss) =
     (case shift_old (now - SPEED_WINDOW_MS) ss of
        [] \<Rightarrow> 0
      | oldest # _ \<Rightarrow>
          if now - time oldest > 0
          then real (sum_list (map bytes (shift_old (now - SPEED_WINDOW_MS) ss)))
                 / (real_of_int (now - time oldest) / 1000)
          else 0)"
  by (simp add: getRecentSpeed_def Let_def split: list.splits)

lemma in_window_iff: "(\<not> time s < now - SPEED_WINDOW_MS) = (now - time s \<le> 60000)"
  by (auto simp: SPEED_WINDOW_MS_def)

lemma shift_old_window:
  "chronological ss \<Longrightarrow>
     shift_old (now - SPEED_WINDOW_MS) ss = filter (\<lambda>s. now - time s \<le> 60000) ss"
  by (simp add: chronological_def shift_old_filter in_window_iff)

lemma chronological_filter: "chronological ss \<Longrightarrow> chronological (filter P ss)"
  by (simp add: chronological_def sorted_filter)

lemma chronological_getRecentSpeed:
  "chronological ss \<Longrightarrow> chronological (snd (getRecentSpeed now ss))"
  by (simp add: snd_getRecentSpeed shift_old_window chronological_filter)

lemma chronological_hd:
  "chronological ss \<Longrightarrow> s \<in> set ss \<Longrightarrow> time (hd ss) \<le> time s"
  by (cases ss) (auto simp: chronological_def)

lemma getRecentSpeed_chronological:
  assumes "chronological ss"
  shows "snd (getRecentSpeed now ss) = filter (\<lambda>s. now - time s \<le> 60000) ss
    \<and> (\<forall>s \<in> set (snd (getRecentSpeed now ss)).
          time (hd (snd (getRecentSpeed now ss))) \<le> time s)
    \<and> fst (getRecentSpeed now ss) =
        (case filter (\<lambda>s. now - time s \<le> 60000) ss of
           [] \<Rightarrow> 0
         | oldest # _ \<Rightarrow>
             if now - time oldest > 0
             then real (sum_list (map bytes (filter (\<lambda>s. now - time s \<le> 60000) ss)))
                    / (real_of_int (now - time oldest) / 1000)
             else 0)
    \<and> fst (getRecentSpeed now ss)
        = fst (getRecentSpeed now (filter (\<lambda>s. now - time s \<le> 60000) ss))"
proof -
  let ?w = "filter (\<lambda>s. now - time s \<le> 60000) ss"
  have sh: "shift_old (now - SPEED_WINDOW_MS) ss = ?w"
    by (rule shift_old_window [OF assms])
  have 1: "snd (getRecentSpeed now ss) = ?w"
    by (simp only: snd_getRecentSpeed sh)
  have "chronological ?w"
    by (rule chronological_filter [OF assms])
  then have sh': "shift_old (now - SPEED_WINDOW_MS) ?w = ?w"
    by (simp add: shift_old_window)
  have 2: "\<forall>s \<in> set (snd (getRecentSpeed now ss)). time (hd (snd (getRecentSpeed now ss))) \<le> time s"
    using chronological_hd [OF chronological_getRecentSpeed [OF assms]] by blast
  have 3: "fst (getRecentSpeed now ss) =
        (case ?w of
           [] \<Rightarrow> 0
         | oldest # _ \<Rightarrow>
             if now - time oldest > 0
             then real (sum_list (map bytes ?w)) / (real_of_int (now - time oldest) / 1000)
             else 0)"
    by (simp only: fst_getRecentSpeed sh)
  have 4: "fst (getRecentSpeed now ss) = fst (getRecentSpeed now ?w)"
    by (simp only: fst_getRecentSpeed sh sh')
  from 1 2 3 4 show ?thesis by (intro conjI)
qed

section \<open>The steps of a download give the result of downloadModel\<close>

text \<open>
  The worker below runs \<^verbatim>\<open>downloadModel\<close> one suspension at a time. Run without
  interruption from the call, the steps give the outcome, the file system and the
  progress calls of \<open>downloadModel\<close>.
\<close>

lemma run_download_reading:
  "fsys (destPath (penv P) m) = Some written \<Longrightarrow>
   run_download P m (Reading vs br n) fsys calls =
     run_download P m (Reading [] br (n + sum_list (map length vs)))
       (fsys(destPath (penv P) m \<mapsto> written @ concat vs)) (calls @ map length vs)"
proof (induction vs arbitrary: fsys written n calls)
  case Nil
  then have "fsys(destPath (penv P) m \<mapsto> written) = fsys"
    by (intro ext) simp
  then show ?case by simp
next
  case (Cons v vs)
  have "run_download P m (Reading (v # vs) br n) fsys calls
      = run_download P m (Reading vs br (n + length v))
          (fsys(destPath (penv P) m \<mapsto> written @ v)) (calls @ [length v])"
    using Cons.prems by (subst run_download.simps) (simp add: called_def)
  also have "\<dots> = run_download P m (Reading [] br (n + length v + sum_list (map length vs)))
          ((fsys(destPath (penv P) m \<mapsto> written @ v))
             (destPath (penv P) m \<mapsto> (written @ v) @ concat vs))
          ((calls @ [length v]) @ map length vs)"
    by (rule Cons.IH) simp
  finally show ?case by (simp add: add.assoc fun_upd_def cong: if_cong)
qed

lemma run_download_eq_downloadModel:
  "run_download P m Fetching fsys [] =
     (let d = downloadModel (sha_of P) (penv P) (net P) fsys m
      in (outcome d, fs_after d, progress d))"
proof (cases "net P (url m) (getAuthHeaders (penv P) (url m))")
  case NetworkError
  then show ?thesis
    by (subst run_download.simps) (simp add: downloadModel_def called_def)
next
  case (Response res)
  show ?thesis
  proof (cases "ok res")
    case False
    with Response show ?thesis
      by (subst run_download.simps) (simp add: downloadModel_def called_def)
  next
    case True
    show ?thesis
    proof (cases "body res")
      case None
      with Response True show ?thesis
        by (subst run_download.simps) (simp add: downloadModel_def called_def)
    next
      case (Some b)
      let ?p = "destPath (penv P) m"
      define written where "written = concat (chunks b)"
      define n where "n = sum_list (map length (chunks b))"
      define calls where "calls = map length (chunks b)"
      have rl: "read_loop (chunks b) [] 0 [] = (written, n, calls)"
        by (simp add: read_loop_eq written_def n_def calls_def)
      have 1: "run_download P m Fetching fsys []
          = run_download P m (Reading (chunks b) (broken b) 0) (fsys(?p \<mapsto> [])) []"
        using Response True Some by (subst run_download.simps) (simp add: called_def)
      have 2: "run_download P m (Reading (chunks b) (broken b) 0) (fsys(?p \<mapsto> [])) []
          = run_download P m (Reading [] (broken b) n) (fsys(?p \<mapsto> written)) calls"
        using run_download_reading [of "fsys(?p \<mapsto> [])" P m "[]" "chunks b" "broken b" 0 "[]"]
        by (simp add: written_def n_def calls_def)
      have 3: "run_download P m (Reading [] (broken b) n) (fsys(?p \<mapsto> written)) calls
          = (let d = downloadModel (sha_of P) (penv P) (net P) fsys m
             in (outcome d, fs_after d, progress d))"
        using Response True Some rl
        by (simp add: run_download.simps [of P m "Reading [] (broken b) n"]
              run_download.simps [of P m "Flushing n"] run_download.simps [of P m Hashing]
              downloadModel_def called_def Let_def)
      from 1 2 3 show ?thesis by simp
    qed
  qed
qed

section \<open>Properties of the grouping by host\<close>

lemma fst_extend_group: "fst (extend_group k x p) = fst p"
  by (simp add: extend_group_def)

lemma groupBy_add_eq:
  "distinct (map fst g) \<Longrightarrow>
     groupBy_add k x g =
       (if k \<in> fst ` set g then map (extend_group k x) g else g @ [(k, [x])])"
proof (induction g)
  case Nil
  then show ?case by simp
next
  case (Cons a g)
  obtain k' ys where a: "a = (k', ys)" by (cases a)
  show ?case
  proof (cases "k = k'")
    case True
    with Cons.prems a have "k \<notin> fst ` set g" by auto
    then have "map (extend_group k x) g = g"
      by (intro map_idI) (auto simp: image_iff extend_group_def)
    with True a show ?thesis by (simp add: extend_group_def)
  next
    case False
    with Cons a show ?thesis by (auto simp: extend_group_def)
  qed
qed

lemma grouped_add:
  assumes "grouped f xs g"
  shows "grouped f (xs @ [x]) (groupBy_add (f x) x g)"
proof -
  from assms have d: "distinct (map fst g)" and k: "fst ` set g = f ` set xs"
    and s: "\<And>p. p \<in> set g \<Longrightarrow> snd p = filter (\<lambda>y. f y = fst p) xs"
    by (simp_all add: grouped_def)
  show ?thesis
  proof (cases "f x \<in> fst ` set g")
    case True
    with d have eq: "groupBy_add (f x) x g = map (extend_group (f x) x) g"
      by (simp add: groupBy_add_eq)
    have keys: "map fst (map (extend_group (f x) x) g) = map fst g"
      by (simp add: fst_extend_group comp_def)
    have 1: "distinct (map fst (map (extend_group (f x) x) g))"
      using d by (simp only: keys)
    have 2: "fst ` set (map (extend_group (f x) x) g) = f ` set (xs @ [x])"
    proof -
      have "fst ` set (map (extend_group (f x) x) g) = set (map fst (map (extend_group (f x) x) g))"
        by (simp only: set_map)
      also have "\<dots> = fst ` set g" by (simp only: keys set_map)
      also have "\<dots> = f ` set (xs @ [x])" using True k by auto
      finally show ?thesis .
    qed
    have 3: "\<forall>p \<in> set (map (extend_group (f x) x) g). snd p = filter (\<lambda>y. f y = fst p) (xs @ [x])"
    proof
      fix p assume "p \<in> set (map (extend_group (f x) x) g)"
      then obtain p0 where p0: "p0 \<in> set g" and p: "p = extend_group (f x) x p0" by auto
      from s [OF p0] p show "snd p = filter (\<lambda>y. f y = fst p) (xs @ [x])"
        by (simp add: extend_group_def)
    qed
    from 1 2 3 show ?thesis unfolding eq grouped_def by (intro conjI)
  next
    case False
    with d have eq: "groupBy_add (f x) x g = g @ [(f x, [x])]"
      by (simp add: groupBy_add_eq)
    from False k have nx: "\<And>y. y \<in> set xs \<Longrightarrow> f y \<noteq> f x" by (metis imageI)
    have 1: "distinct (map fst (g @ [(f x, [x])]))"
      using d False by simp
    have 2: "fst ` set (g @ [(f x, [x])]) = f ` set (xs @ [x])"
      using k by simp
    have 3: "\<forall>p \<in> set (g @ [(f x, [x])]). snd p = filter (\<lambda>y. f y = fst p) (xs @ [x])"
    proof
      fix p assume "p \<in> set (g @ [(f x, [x])])"
      then consider "p \<in> set g" | "p = (f x, [x])" by auto
      then show "snd p = filter (\<lambda>y. f y = fst p) (xs @ [x])"
      proof cases
        case 1
        with False have "fst p \<noteq> f x" by (metis imageI)
        with s [OF 1] show ?thesis by simp
      next
        case 2
        have "filter (\<lambda>y. f y = f x) xs = []" using nx by (simp add: filter_empty_conv)
        with 2 show ?thesis by simp
      qed
    qed
    from 1 2 3 show ?thesis unfolding eq grouped_def by (intro conjI)
  qed
qed

lemma grouped_foldl:
  "grouped f xs g \<Longrightarrow> grouped f (xs @ zs) (foldl (\<lambda>g x. groupBy_add (f x) x g) g zs)"
proof (induction zs arbitrary: xs g)
  case Nil
  then show ?case by simp
next
  case (Cons z zs)
  from Cons.IH [OF grouped_add [OF Cons.prems, of z]] show ?case by simp
qed

lemma grouped_groupBy: "grouped f xs (groupBy f xs)"
  using grouped_foldl [of f "[]" "[]" xs] by (simp add: groupBy_def grouped_def)

section \<open>What the steps of the worker change\<close>

lemma host_of_fun: "(\<lambda>m. getDomain P (url m)) = host_of P"
  by (simp add: host_of_def fun_eq_iff)

subsection \<open>What one preflight iteration changes\<close>

lemma classify_frame:
  "pc (classify P m w) = pc w"
  "disk (classify P m w) = disk w"
  "queues (classify P m w) = queues w"
  "classified (classify P m w) = classified w"
  "pending (classify P m w) = pending w"
  "crashed (classify P m w) = crashed w"
  "activeFiles (classify P m w) = activeFiles w"
  "phase (wstatus (classify P m w)) = phase (wstatus w)"
  "totalFiles (wstatus (classify P m w)) = totalFiles (wstatus w)"
  "overallDownloadedBytes (wstatus (classify P m w)) = overallDownloadedBytes (wstatus w)"
  "error (wstatus (classify P m w)) = error (wstatus w)"
  by (simp_all add: classify_def Let_def)

lemma classify_effect:
  "modelsWithSize (classify P m w) =
     modelsWithSize w @ (if needs_download P (disk w) m then [with_size P m] else [])"
  "results (wstatus (classify P m w)) =
     results (wstatus w) @
       (if needs_download P (disk w) m then []
        else [\<lparr>file_r = dest m, status = Skipped,
               reason = skip_reason (checkNeedsDownload (sha_of P) (penv P) (disk w) m (probe P m))\<rparr>])"
  "overallTotalBytes (wstatus (classify P m w)) =
     overallTotalBytes (wstatus w) + (if needs_download P (disk w) m then probe P m else 0)"
  by (simp_all add: classify_def Let_def needs_download_def with_size_def)

subsection \<open>What the start of the host partitions changes\<close>

lemma start_entry_frame:
  "pc (start_entry P m w) = pc w"
  "disk (start_entry P m w) = disk w"
  "queues (start_entry P m w) = queues w"
  "classified (start_entry P m w) = classified w"
  "pending (start_entry P m w) = pending w"
  "modelsWithSize (start_entry P m w) = modelsWithSize w"
  "crashed (start_entry P m w) = crashed w"
  "phase (wstatus (start_entry P m w)) = phase (wstatus w)"
  "totalFiles (wstatus (start_entry P m w)) = totalFiles (wstatus w)"
  "overallDownloadedBytes (wstatus (start_entry P m w)) = overallDownloadedBytes (wstatus w)"
  "overallTotalBytes (wstatus (start_entry P m w)) = overallTotalBytes (wstatus w)"
  "results (wstatus (start_entry P m w)) = results (wstatus w)"
  "error (wstatus (start_entry P m w)) = error (wstatus w)"
  by (simp_all add: start_entry_def updateStatus_def case_prod_beta)

lemma start_queues_frame:
  "pc (start_queues P gs w) = pc w
   \<and> disk (start_queues P gs w) = disk w
   \<and> classified (start_queues P gs w) = classified w
   \<and> pending (start_queues P gs w) = pending w
   \<and> modelsWithSize (start_queues P gs w) = modelsWithSize w
   \<and> crashed (start_queues P gs w) = crashed w
   \<and> phase (wstatus (start_queues P gs w)) = phase (wstatus w)
   \<and> totalFiles (wstatus (start_queues P gs w)) = totalFiles (wstatus w)
   \<and> overallDownloadedBytes (wstatus (start_queues P gs w)) = overallDownloadedBytes (wstatus w)
   \<and> overallTotalBytes (wstatus (start_queues P gs w)) = overallTotalBytes (wstatus w)
   \<and> results (wstatus (start_queues P gs w)) = results (wstatus w)
   \<and> error (wstatus (start_queues P gs w)) = error (wstatus w)
   \<and> queues (start_queues P gs w) = queues w @ map new_queue gs"
proof (induction gs arbitrary: w)
  case Nil
  then show ?case by simp
next
  case (Cons g gs)
  show ?case
    by (cases g) (simp_all add: Cons.IH start_entry_frame new_queue_def)
qed

lemma after_preflight_frame:
  "disk (after_preflight P w) = disk w"
  "classified (after_preflight P w) = classified w"
  "pending (after_preflight P w) = pending w"
  "modelsWithSize (after_preflight P w) = modelsWithSize w"
  "totalFiles (wstatus (after_preflight P w)) = totalFiles (wstatus w)"
  "overallDownloadedBytes (wstatus (after_preflight P w)) = overallDownloadedBytes (wstatus w)"
  "overallTotalBytes (wstatus (after_preflight P w)) = overallTotalBytes (wstatus w)"
  "results (wstatus (after_preflight P w)) = results (wstatus w)"
  "error (wstatus (after_preflight P w)) = error (wstatus w)"
  by (simp_all add: after_preflight_def Let_def start_queues_frame)

lemma after_preflight_none:
  assumes "modelsWithSize w = []"
  shows "pc (after_preflight P w) = Returned"
    "phase (wstatus (after_preflight P w)) = Completed"
    "queues (after_preflight P w) = queues w"
    "crashed (after_preflight P w) = crashed w"
  using assms by (simp_all add: after_preflight_def)

lemma after_preflight_bad_url:
  assumes "modelsWithSize w \<noteq> []" and "\<exists>m \<in> set (modelsWithSize w). getDomain P (url m) = None"
  shows "pc (after_preflight P w) = pc w"
    "phase (wstatus (after_preflight P w)) = Downloading"
    "queues (after_preflight P w) = queues w"
    "crashed (after_preflight P w)"
  using assms by (simp_all add: after_preflight_def Let_def)

lemma after_preflight_some:
  assumes "modelsWithSize w \<noteq> []" and "\<forall>m \<in> set (modelsWithSize w). getDomain P (url m) \<noteq> None"
  shows "pc (after_preflight P w) = AwaitingQueues"
    "phase (wstatus (after_preflight P w)) = Downloading"
    "queues (after_preflight P w) =
       queues w @ map new_queue (map snd (groupBy (host_of P) (modelsWithSize w)))"
    "crashed (after_preflight P w) = crashed w"
proof -
  from assms(2) have nb: "(\<exists>m \<in> set (modelsWithSize w). getDomain P (url m) = None) = False"
    by blast
  show "pc (after_preflight P w) = AwaitingQueues"
    "phase (wstatus (after_preflight P w)) = Downloading"
    "queues (after_preflight P w) =
       queues w @ map new_queue (map snd (groupBy (host_of P) (modelsWithSize w)))"
    "crashed (after_preflight P w) = crashed w"
    unfolding after_preflight_def Let_def nb
    using assms(1) by (simp_all add: start_queues_frame host_of_fun)
qed

subsection \<open>What a step of a host partition changes\<close>

lemma finish_entry_frame:
  "pc (finish_entry P m r w) = pc w"
  "disk (finish_entry P m r w) = disk w"
  "queues (finish_entry P m r w) = queues w"
  "classified (finish_entry P m r w) = classified w"
  "pending (finish_entry P m r w) = pending w"
  "modelsWithSize (finish_entry P m r w) = modelsWithSize w"
  "crashed (finish_entry P m r w) = crashed w"
  "phase (wstatus (finish_entry P m r w)) = phase (wstatus w)"
  "totalFiles (wstatus (finish_entry P m r w)) = totalFiles (wstatus w)"
  "overallDownloadedBytes (wstatus (finish_entry P m r w)) = overallDownloadedBytes (wstatus w)"
  "overallTotalBytes (wstatus (finish_entry P m r w)) = overallTotalBytes (wstatus w)"
  "error (wstatus (finish_entry P m r w)) = error (wstatus w)"
  "results (wstatus (finish_entry P m r w)) =
     results (wstatus w) @ [\<lparr>file_r = dest m, status = dl_status r, reason = dl_reason r\<rparr>]"
  by (simp_all add: finish_entry_def updateStatus_def case_prod_beta)

lemma on_progress_frame:
  "pc (on_progress P n w) = pc w"
  "disk (on_progress P n w) = disk w"
  "queues (on_progress P n w) = queues w"
  "classified (on_progress P n w) = classified w"
  "pending (on_progress P n w) = pending w"
  "modelsWithSize (on_progress P n w) = modelsWithSize w"
  "crashed (on_progress P n w) = crashed w"
  "phase (wstatus (on_progress P n w)) = phase (wstatus w)"
  "totalFiles (wstatus (on_progress P n w)) = totalFiles (wstatus w)"
  "overallDownloadedBytes (wstatus (on_progress P n w)) = overallDownloadedBytes (wstatus w) + n"
  "overallTotalBytes (wstatus (on_progress P n w)) = overallTotalBytes (wstatus w)"
  "error (wstatus (on_progress P n w)) = error (wstatus w)"
  "results (wstatus (on_progress P n w)) = results (wstatus w)"
  by (simp_all add: on_progress_def updateStatus_def case_prod_beta)

lemmas frames = finish_entry_frame on_progress_frame start_entry_frame

lemma queue_step_idle:
  "qrest (queues w ! k) = [] \<Longrightarrow> downloadDomainQueue_step P k w = w"
  by (simp add: downloadDomainQueue_step_def)

lemma queue_step_frame:
  assumes "qrest (queues w ! k) = m # ms"
    and "dl_step P m (qstate (queues w ! k)) (disk w) = (nxt, disk', callback)"
  shows "pc (downloadDomainQueue_step P k w) = pc w"
    "classified (downloadDomainQueue_step P k w) = classified w"
    "pending (downloadDomainQueue_step P k w) = pending w"
    "modelsWithSize (downloadDomainQueue_step P k w) = modelsWithSize w"
    "phase (wstatus (downloadDomainQueue_step P k w)) = phase (wstatus w)"
    "totalFiles (wstatus (downloadDomainQueue_step P k w)) = totalFiles (wstatus w)"
    "overallTotalBytes (wstatus (downloadDomainQueue_step P k w)) = overallTotalBytes (wstatus w)"
    "error (wstatus (downloadDomainQueue_step P k w)) = error (wstatus w)"
    "disk (downloadDomainQueue_step P k w) = disk'"
  using assms
  by (simp_all add: downloadDomainQueue_step_def Let_def frames
        split: option.splits dl_next.splits list.splits)

lemma queue_step_effect:
  assumes "qrest (queues w ! k) = m # ms"
    and "dl_step P m (qstate (queues w ! k)) (disk w) = (nxt, disk', callback)"
  shows "crashed (downloadDomainQueue_step P k w) = (crashed w \<or> nxt = Abort)"
    "queues (downloadDomainQueue_step P k w) =
       (queues w)[k := queue_after (queues w ! k) nxt]"
    "overallDownloadedBytes (wstatus (downloadDomainQueue_step P k w)) =
       overallDownloadedBytes (wstatus w) + (case callback of None \<Rightarrow> 0 | Some n \<Rightarrow> n)"
    "results (wstatus (downloadDomainQueue_step P k w)) =
       results (wstatus w) @
         (case nxt of
            Finish r \<Rightarrow> [\<lparr>file_r = dest m, status = dl_status r, reason = dl_reason r\<rparr>]
          | _ \<Rightarrow> [])"
  using assms
  by (simp_all add: downloadDomainQueue_step_def Let_def frames queue_after_def
        split: option.splits dl_next.splits list.splits)

section \<open>The invariants are kept by every step\<close>

subsection \<open>Phase and control\<close>

lemma after_preflight_cases:
  obtains (none) "modelsWithSize w = []"
  | (bad_url) "modelsWithSize w \<noteq> []" "\<exists>m \<in> set (modelsWithSize w). getDomain P (url m) = None"
  | (some) "modelsWithSize w \<noteq> []" "\<forall>m \<in> set (modelsWithSize w). getDomain P (url m) \<noteq> None"
  by (cases "modelsWithSize w = []";
      cases "\<exists>m \<in> set (modelsWithSize w). getDomain P (url m) = None") auto

lemma inv_phase_after_preflight:
  assumes "pc w = InPreflight"
  shows "inv_phase (after_preflight P w)"
proof (cases w rule: after_preflight_cases [where P = P])
  case none
  then show ?thesis by (simp add: inv_phase_def after_preflight_none)
next
  case bad_url
  then show ?thesis using assms by (simp add: inv_phase_def after_preflight_bad_url)
next
  case some
  then show ?thesis by (simp add: inv_phase_def after_preflight_some)
qed

lemma inv_phase_main_step:
  assumes "inv_phase w"
  shows "inv_phase (main_step P w)"
proof (cases "pc w")
  case AtStart
  show ?thesis
  proof (cases "MODELS P")
    case NotSet
    with AtStart show ?thesis by (simp add: main_step_def inv_phase_def)
  next
    case BadJson
    with AtStart assms show ?thesis by (simp add: main_step_def inv_phase_def)
  next
    case (Json ms)
    let ?w1 = "w\<lparr>wstatus := (wstatus w)\<lparr>totalFiles := length ms\<rparr>, pending := ms, pc := InPreflight\<rparr>"
    have step: "main_step P w = (if ms = [] then after_preflight P ?w1 else ?w1)"
      using AtStart Json by (simp add: main_step_def Let_def)
    have "ms \<noteq> [] \<Longrightarrow> inv_phase ?w1" using assms AtStart by (simp add: inv_phase_def)
    moreover have "inv_phase (after_preflight P ?w1)"
      by (rule inv_phase_after_preflight) simp
    ultimately show ?thesis by (simp only: step split: if_splits) simp
  qed
next
  case InPreflight
  show ?thesis
  proof (cases "pending w")
    case Nil
    with InPreflight assms show ?thesis by (simp add: main_step_def)
  next
    case (Cons m ms)
    let ?w1 = "(classify P m w)\<lparr>classified := classified w @ [m], pending := ms\<rparr>"
    have step: "main_step P w = (if ms = [] then after_preflight P ?w1 else ?w1)"
      using InPreflight Cons by (simp add: main_step_def Let_def)
    have "ms \<noteq> [] \<Longrightarrow> inv_phase ?w1"
      using assms InPreflight by (simp add: inv_phase_def classify_frame)
    moreover have "inv_phase (after_preflight P ?w1)"
      by (rule inv_phase_after_preflight) (simp add: classify_frame InPreflight)
    ultimately show ?thesis by (simp only: step split: if_splits) simp
  qed
next
  case AwaitingQueues
  with assms show ?thesis by (simp add: main_step_def inv_phase_def)
next
  case Returned
  with assms show ?thesis by (simp add: main_step_def)
qed

lemma dl_step_cases:
  obtains nxt disk' callback where "dl_step P m s fsys = (nxt, disk', callback)"
  by (cases "dl_step P m s fsys") blast

lemma inv_phase_queue_step:
  assumes "inv_phase w" and "pc w = AwaitingQueues"
  shows "inv_phase (downloadDomainQueue_step P k w)"
proof (cases "qrest (queues w ! k)")
  case Nil
  with assms show ?thesis by (simp add: queue_step_idle)
next
  case (Cons m ms)
  obtain nxt disk' callback
    where st: "dl_step P m (qstate (queues w ! k)) (disk w) = (nxt, disk', callback)"
    by (rule dl_step_cases)
  from assms show ?thesis
    by (simp add: inv_phase_def queue_step_frame [OF Cons st])
qed

lemma inv_phase_exec: "inv_phase w \<Longrightarrow> inv_phase (exec P ev w)"
  by (cases ev) (simp_all add: exec_def inv_phase_main_step inv_phase_queue_step)

subsection \<open>Preflight bookkeeping\<close>

lemma dl_step_status:
  "dl_step P m s fsys = (Finish r, disk', callback) \<Longrightarrow> dl_status r \<noteq> Skipped"
  by (cases "(P, m, s, fsys)" rule: dl_step.cases)
     (auto split: fetch_outcome.splits if_splits option.splits)

lemma inv_preD:
  assumes "inv_pre P fs0 w"
  shows "pc w = AtStart \<or> pc w = InPreflight \<Longrightarrow> disk w = fs0"
    and "pc w = AtStart \<or> pc w = InPreflight \<Longrightarrow> queues w = []"
    and "modelsWithSize w = map (with_size P) (filter (needs_download P fs0) (classified w))"
    and "map file_r (filter (\<lambda>r. status r = Skipped) (results (wstatus w)))
          = map dest (filter (\<lambda>m. \<not> needs_download P fs0 m) (classified w))"
    and "overallTotalBytes (wstatus w)
          = sum_list (map (probe P) (filter (needs_download P fs0) (classified w)))"
    and "pc w = AtStart \<Longrightarrow> classified w = []"
    and "pc w = AtStart \<Longrightarrow> pending w = []"
    and "pc w = AtStart \<Longrightarrow> wstatus w = status0"
    and "pc w \<noteq> AtStart \<Longrightarrow> classified w @ pending w = job_list P"
    and "pc w \<noteq> AtStart \<Longrightarrow> totalFiles (wstatus w) = length (job_list P)"
    and "pc w = AwaitingQueues \<or> pc w = Returned \<Longrightarrow> pending w = []"
  using assms by (simp_all add: inv_pre_def)

lemma inv_pre_frame:
  assumes inv: "inv_pre P fs0 w"
    and same: "classified w' = classified w" "pending w' = pending w"
      "modelsWithSize w' = modelsWithSize w" "disk w' = disk w"
      "results (wstatus w') = results (wstatus w)"
      "overallTotalBytes (wstatus w') = overallTotalBytes (wstatus w)"
      "totalFiles (wstatus w') = totalFiles (wstatus w)"
    and early: "pc w' = AtStart \<or> pc w' = InPreflight
        \<Longrightarrow> (pc w = AtStart \<or> pc w = InPreflight) \<and> queues w' = queues w"
    and start: "pc w' = AtStart \<Longrightarrow> pc w = AtStart \<and> wstatus w' = wstatus w"
    and later: "pc w' \<noteq> AtStart \<Longrightarrow> pc w \<noteq> AtStart"
    and "end": "pc w' = AwaitingQueues \<or> pc w' = Returned \<Longrightarrow> pending w = []"
  shows "inv_pre P fs0 w'"
  unfolding inv_pre_def same
  using inv_preD [OF inv] early start later "end"
  by (intro conjI impI) (simp_all (no_asm_simp))

lemma inv_pre_after_preflight:
  assumes "inv_pre P fs0 w" and "pc w = InPreflight" and "pending w = []"
  shows "inv_pre P fs0 (after_preflight P w)"
proof (cases w rule: after_preflight_cases [where P = P])
  case none
  show ?thesis
    by (rule inv_pre_frame [OF assms(1)])
       (simp_all add: after_preflight_frame after_preflight_none [OF none] assms)
next
  case bad_url
  show ?thesis
    by (rule inv_pre_frame [OF assms(1)])
       (simp_all add: after_preflight_frame after_preflight_bad_url [OF bad_url] assms)
next
  case some
  show ?thesis
    by (rule inv_pre_frame [OF assms(1)])
       (simp_all add: after_preflight_frame after_preflight_some [OF some] assms)
qed

lemma inv_pre_classified:
  assumes inv: "inv_pre P fs0 w" and pc: "pc w = InPreflight" and p: "pending w = m # ms"
  shows "inv_pre P fs0 ((classify P m w)\<lparr>classified := classified w @ [m], pending := ms\<rparr>)"
proof -
  note D = inv_preD [OF inv]
  from D(1) pc have d: "disk w = fs0" by simp
  from D(9) pc p have c: "classified w @ m # ms = job_list P" by simp
  show ?thesis
    unfolding inv_pre_def
    using D(2-5, 10) pc c
    by (simp add: classify_frame classify_effect d)
qed

lemma inv_pre_main_step:
  assumes "inv_pre P fs0 w"
  shows "inv_pre P fs0 (main_step P w)"
proof (cases "pc w")
  case AtStart
  note D = inv_preD [OF assms]
  show ?thesis
  proof (cases "MODELS P")
    case NotSet
    have step: "main_step P w = w\<lparr>wstatus := (wstatus w)\<lparr>phase := FailedPhase,
        error := Some ''MODELS environment variable is not set''\<rparr>, pc := Returned\<rparr>"
      using AtStart NotSet by (simp add: main_step_def)
    show ?thesis
      unfolding step inv_pre_def
      using D AtStart NotSet by (simp add: job_list_def status0_def)
  next
    case BadJson
    have step: "main_step P w = w\<lparr>crashed := True\<rparr>"
      using AtStart BadJson by (simp add: main_step_def)
    show ?thesis
      unfolding step by (rule inv_pre_frame [OF assms]) (simp_all add: AtStart)
  next
    case (Json ms)
    let ?w1 = "w\<lparr>wstatus := (wstatus w)\<lparr>totalFiles := length ms\<rparr>, pending := ms, pc := InPreflight\<rparr>"
    have step: "main_step P w = (if ms = [] then after_preflight P ?w1 else ?w1)"
      using AtStart Json by (simp add: main_step_def Let_def)
    have w1: "inv_pre P fs0 ?w1"
      unfolding inv_pre_def using D AtStart Json by (simp add: job_list_def status0_def)
    have "ms = [] \<Longrightarrow> inv_pre P fs0 (after_preflight P ?w1)"
      by (rule inv_pre_after_preflight [OF w1]) simp_all
    with w1 show ?thesis by (simp only: step split: if_splits) simp
  qed
next
  case InPreflight
  show ?thesis
  proof (cases "pending w")
    case Nil
    with InPreflight assms show ?thesis by (simp add: main_step_def)
  next
    case (Cons m ms)
    let ?w1 = "(classify P m w)\<lparr>classified := classified w @ [m], pending := ms\<rparr>"
    have step: "main_step P w = (if ms = [] then after_preflight P ?w1 else ?w1)"
      using InPreflight Cons by (simp add: main_step_def Let_def)
    have w1: "inv_pre P fs0 ?w1"
      by (rule inv_pre_classified [OF assms InPreflight Cons])
    have "ms = [] \<Longrightarrow> inv_pre P fs0 (after_preflight P ?w1)"
      by (rule inv_pre_after_preflight [OF w1]) (simp_all add: classify_frame InPreflight)
    with w1 show ?thesis by (simp only: step split: if_splits) simp
  qed
next
  case AwaitingQueues
  let ?w' = "w\<lparr>wstatus := (wstatus w)\<lparr>phase :=
      (if failed (serializeStatus (wstatus w)) > 0 then FailedPhase else Completed)\<rparr>, pc := Returned\<rparr>"
  have step: "main_step P w = (if \<forall>q \<in> set (queues w). qrest q = [] then ?w' else w)"
    using AwaitingQueues by (simp add: main_step_def)
  have w': "inv_pre P fs0 ?w'"
    by (rule inv_pre_frame [OF assms])
       (simp_all add: AwaitingQueues inv_preD(11) [OF assms])
  show ?thesis
  proof (cases "\<forall>q \<in> set (queues w). qrest q = []")
    case True
    have "main_step P w = ?w'" by (simp only: step if_P [OF True])
    with w' show ?thesis by (simp only:)
  next
    case False
    have "main_step P w = w" by (simp only: step if_not_P [OF False])
    with assms show ?thesis by (simp only:)
  qed
next
  case Returned
  with assms show ?thesis by (simp add: main_step_def)
qed

lemma inv_pre_queue_step:
  assumes "inv_pre P fs0 w" and "pc w = AwaitingQueues"
  shows "inv_pre P fs0 (downloadDomainQueue_step P k w)"
proof (cases "qrest (queues w ! k)")
  case Nil
  with assms show ?thesis by (simp add: queue_step_idle)
next
  case (Cons m ms)
  obtain nxt disk' callback
    where st: "dl_step P m (qstate (queues w ! k)) (disk w) = (nxt, disk', callback)"
    by (rule dl_step_cases)
  note D = inv_preD [OF assms(1)]
  have sk: "filter (\<lambda>r. status r = Skipped) (results (wstatus (downloadDomainQueue_step P k w)))
      = filter (\<lambda>r. status r = Skipped) (results (wstatus w))"
    using dl_step_status [of P m _ _ _ disk' callback] st
    by (cases nxt) (auto simp: queue_step_effect [OF Cons st])
  show ?thesis
    unfolding inv_pre_def sk queue_step_frame [OF Cons st]
    using D assms(2) by simp
qed

lemma inv_pre_exec: "inv_pre P fs0 w \<Longrightarrow> inv_pre P fs0 (exec P ev w)"
  by (cases ev) (simp_all add: exec_def inv_pre_main_step inv_pre_queue_step)

lemma inv_pre_init: "inv_pre P fs0 (init fs0)"
  by (simp add: inv_pre_def init_def status0_def)

lemma inv_phase_init: "inv_phase (init fs0)"
  by (simp add: inv_phase_def init_def status0_def)

subsection \<open>Host partitions\<close>

lemma inv_queuesD:
  assumes "inv_queues P w"
  shows "pc w = AtStart \<or> pc w = InPreflight \<Longrightarrow> queues w = []"
    and "pc w = AwaitingQueues \<or> pc w = Returned \<Longrightarrow>
           map (\<lambda>q. qdone q @ qrest q) (queues w) = map snd (groupBy (host_of P) (modelsWithSize w))"
    and "mset (map file_r (filter (\<lambda>r. status r \<noteq> Skipped) (results (wstatus w))))
          = mset (map dest (terminated w))"
    and "pc w = Returned \<Longrightarrow> \<forall>q \<in> set (queues w). qrest q = []"
  using assms by (simp_all add: inv_queues_def)

lemma groupBy_Nil: "groupBy f [] = []"
  by (simp add: groupBy_def)

lemma new_queue_all: "map (\<lambda>q. qdone q @ qrest q) (map new_queue gs) = gs"
  by (induction gs) (simp_all add: new_queue_def)

lemma new_queue_done: "concat (map qdone (map new_queue gs)) = []"
  by (induction gs) (simp_all add: new_queue_def)

lemma inv_queues_frame:
  assumes inv: "inv_queues P w"
    and same: "queues w' = queues w" "modelsWithSize w' = modelsWithSize w"
      "filter (\<lambda>r. status r \<noteq> Skipped) (results (wstatus w'))
         = filter (\<lambda>r. status r \<noteq> Skipped) (results (wstatus w))"
    and early: "pc w' = AtStart \<or> pc w' = InPreflight \<Longrightarrow> pc w = AtStart \<or> pc w = InPreflight"
    and later: "pc w' = AwaitingQueues \<or> pc w' = Returned \<Longrightarrow>
        pc w = AwaitingQueues \<or> pc w = Returned \<or> (queues w = [] \<and> modelsWithSize w = [])"
    and "end": "pc w' = Returned \<Longrightarrow> \<forall>q \<in> set (queues w). qrest q = []"
  shows "inv_queues P w'"
  unfolding inv_queues_def same terminated_def
  using inv_queuesD [OF inv] early later "end"
  by (intro conjI impI) (auto simp: terminated_def groupBy_Nil)

lemma inv_queues_after_preflight:
  assumes "inv_queues P w" and "pc w = InPreflight"
  shows "inv_queues P (after_preflight P w)"
proof -
  from inv_queuesD(1) [OF assms(1)] assms(2) have q: "queues w = []" by simp
  show ?thesis
  proof (cases w rule: after_preflight_cases [where P = P])
    case none
    show ?thesis
      by (rule inv_queues_frame [OF assms(1)])
         (simp_all add: after_preflight_frame after_preflight_none [OF none] q none)
  next
    case bad_url
    show ?thesis
      by (rule inv_queues_frame [OF assms(1)])
         (simp_all add: after_preflight_frame after_preflight_bad_url [OF bad_url] assms)
  next
    case some
    from inv_queuesD(3) [OF assms(1)] q
    have r: "mset (map file_r (filter (\<lambda>r. status r \<noteq> Skipped) (results (wstatus w)))) = {#}"
      by (simp add: terminated_def)
    show ?thesis
      unfolding inv_queues_def terminated_def after_preflight_frame
        after_preflight_some [OF some] q append_Nil new_queue_all new_queue_done
      using r by simp
  qed
qed

lemma inv_queues_main_step:
  assumes iq: "inv_queues P w" and ip: "inv_pre P fs0 w"
  shows "inv_queues P (main_step P w)"
proof (cases "pc w")
  case AtStart
  note Q = inv_queuesD [OF iq]
  from inv_preD(3, 6) [OF ip] AtStart have mws: "modelsWithSize w = []" by simp
  from Q(1) AtStart have q: "queues w = []" by simp
  show ?thesis
  proof (cases "MODELS P")
    case NotSet
    have step: "main_step P w = w\<lparr>wstatus := (wstatus w)\<lparr>phase := FailedPhase,
        error := Some ''MODELS environment variable is not set''\<rparr>, pc := Returned\<rparr>"
      using AtStart NotSet by (simp add: main_step_def)
    show ?thesis
      unfolding step by (rule inv_queues_frame [OF iq]) (simp_all add: mws q)
  next
    case BadJson
    have step: "main_step P w = w\<lparr>crashed := True\<rparr>"
      using AtStart BadJson by (simp add: main_step_def)
    show ?thesis
      unfolding step by (rule inv_queues_frame [OF iq]) (simp_all add: AtStart)
  next
    case (Json ms)
    let ?w1 = "w\<lparr>wstatus := (wstatus w)\<lparr>totalFiles := length ms\<rparr>, pending := ms, pc := InPreflight\<rparr>"
    have step: "main_step P w = (if ms = [] then after_preflight P ?w1 else ?w1)"
      using AtStart Json by (simp add: main_step_def Let_def)
    have w1: "inv_queues P ?w1"
      by (rule inv_queues_frame [OF iq]) (simp_all add: AtStart)
    have "inv_queues P (after_preflight P ?w1)"
      by (rule inv_queues_after_preflight [OF w1]) simp
    with w1 show ?thesis by (simp only: step split: if_splits) simp
  qed
next
  case InPreflight
  note Q = inv_queuesD [OF iq]
  show ?thesis
  proof (cases "pending w")
    case Nil
    with InPreflight iq show ?thesis by (simp add: main_step_def)
  next
    case (Cons m ms)
    let ?w1 = "(classify P m w)\<lparr>classified := classified w @ [m], pending := ms\<rparr>"
    have step: "main_step P w = (if ms = [] then after_preflight P ?w1 else ?w1)"
      using InPreflight Cons by (simp add: main_step_def Let_def)
    have w1: "inv_queues P ?w1"
      unfolding inv_queues_def terminated_def
      using Q(1, 3) InPreflight
      by (simp add: classify_frame classify_effect terminated_def)
    have "inv_queues P (after_preflight P ?w1)"
      by (rule inv_queues_after_preflight [OF w1]) (simp add: classify_frame InPreflight)
    with w1 show ?thesis by (simp only: step split: if_splits) simp
  qed
next
  case AwaitingQueues
  let ?w' = "w\<lparr>wstatus := (wstatus w)\<lparr>phase :=
      (if failed (serializeStatus (wstatus w)) > 0 then FailedPhase else Completed)\<rparr>, pc := Returned\<rparr>"
  have step: "main_step P w = (if \<forall>q \<in> set (queues w). qrest q = [] then ?w' else w)"
    using AwaitingQueues by (simp add: main_step_def)
  show ?thesis
  proof (cases "\<forall>q \<in> set (queues w). qrest q = []")
    case True
    have "main_step P w = ?w'" by (simp only: step if_P [OF True])
    moreover have "inv_queues P ?w'"
      by (rule inv_queues_frame [OF iq]) (simp_all add: AwaitingQueues True)
    ultimately show ?thesis by (simp only:)
  next
    case False
    have "main_step P w = w" by (simp only: step if_not_P [OF False])
    with iq show ?thesis by (simp only:)
  qed
next
  case Returned
  with iq show ?thesis by (simp add: main_step_def)
qed

lemma queue_after_all:
  "qrest q \<noteq> [] \<Longrightarrow>
     qdone (queue_after q nxt) @ qrest (queue_after q nxt) = qdone q @ qrest q"
  by (cases nxt; cases "qrest q") (simp_all add: queue_after_def)

lemma queue_after_done:
  "qrest q = m # ms \<Longrightarrow>
     qdone (queue_after q nxt) = qdone q @ (case nxt of Finish r \<Rightarrow> [m] | _ \<Rightarrow> [])"
  by (cases nxt) (simp_all add: queue_after_def)

lemma mset_concat_update:
  "k < length xs \<Longrightarrow> mset (concat (xs[k := y])) + mset (xs ! k) = mset (concat xs) + mset y"
proof (induction xs arbitrary: k)
  case Nil
  then show ?case by simp
next
  case (Cons x xs)
  then show ?case by (cases k) (simp_all add: ac_simps)
qed

lemma map_update_same:
  "k < length qs \<Longrightarrow> f q' = f (qs ! k) \<Longrightarrow> map f (qs[k := q']) = map f qs"
  by (simp add: map_update list_update_same_conv)

lemma inv_queues_queue_step:
  assumes iq: "inv_queues P w" and pc: "pc w = AwaitingQueues" and k: "k < length (queues w)"
  shows "inv_queues P (downloadDomainQueue_step P k w)"
proof (cases "qrest (queues w ! k)")
  case Nil
  with iq show ?thesis by (simp add: queue_step_idle)
next
  case (Cons m ms)
  obtain nxt disk' callback
    where st: "dl_step P m (qstate (queues w ! k)) (disk w) = (nxt, disk', callback)"
    by (rule dl_step_cases)
  note Q = inv_queuesD [OF iq]
  note F = queue_step_frame [OF Cons st]
  note E = queue_step_effect [OF Cons st]
  let ?q' = "queue_after (queues w ! k) nxt"
  have all: "map (\<lambda>q. qdone q @ qrest q) ((queues w)[k := ?q']) = map (\<lambda>q. qdone q @ qrest q) (queues w)"
    by (rule map_update_same [OF k]) (simp add: queue_after_all Cons)
  have "mset (concat ((map qdone (queues w))[k := qdone ?q'])) + mset (map qdone (queues w) ! k)
      = mset (concat (map qdone (queues w))) + mset (qdone ?q')"
    by (rule mset_concat_update) (simp add: k)
  then have dn: "mset (concat (map qdone ((queues w)[k := ?q'])))
      = mset (concat (map qdone (queues w))) + (case nxt of Finish r \<Rightarrow> {#m#} | _ \<Rightarrow> {#})"
    using k by (cases nxt) (simp_all add: map_update queue_after_done [OF Cons])
  have res: "mset (map file_r (filter (\<lambda>r. status r \<noteq> Skipped)
        (results (wstatus (downloadDomainQueue_step P k w)))))
      = mset (map file_r (filter (\<lambda>r. status r \<noteq> Skipped) (results (wstatus w))))
          + (case nxt of Finish r \<Rightarrow> {#dest m#} | _ \<Rightarrow> {#})"
    using dl_step_status [of P m _ _ _ disk' callback] st
    by (cases nxt) (auto simp: E)
  have 3: "mset (map file_r (filter (\<lambda>r. status r \<noteq> Skipped)
        (results (wstatus (downloadDomainQueue_step P k w)))))
      = mset (map dest (terminated (downloadDomainQueue_step P k w)))"
    unfolding res terminated_def E(2)
    using Q(3) dn by (cases nxt) (simp_all add: terminated_def)
  show ?thesis
    unfolding inv_queues_def
    using 3 Q(2) pc all by (simp add: F E(2))
qed

lemma inv_queues_exec:
  "inv_queues P w \<Longrightarrow> inv_pre P fs0 w \<Longrightarrow> inv_queues P (exec P ev w)"
  by (cases ev) (simp_all add: exec_def inv_queues_main_step inv_queues_queue_step)

lemma inv_queues_init: "inv_queues P (init fs0)"
  by (simp add: inv_queues_def init_def status0_def terminated_def)

subsection \<open>Byte accounting\<close>

lemma inv_bytes_frame:
  assumes "inv_bytes P w" and "queues w' = queues w"
    and "overallDownloadedBytes (wstatus w') = overallDownloadedBytes (wstatus w)"
  shows "inv_bytes P w'"
  using assms by (simp add: inv_bytes_def)

lemma new_queue_bytes: "received_so_far P (new_queue g) = 0"
  by (cases g) (simp_all add: received_so_far_def new_queue_def received_current_def)

lemma new_queue_ok: "queue_ok P (new_queue g)"
  by (cases g) (simp_all add: queue_ok_def new_queue_def)

lemma sum_new_queues: "sum_list (map (received_so_far P) (map new_queue gs)) = 0"
  by (induction gs) (simp_all add: new_queue_bytes)

lemma inv_bytes_after_preflight:
  assumes "inv_bytes P w"
  shows "inv_bytes P (after_preflight P w)"
proof (cases w rule: after_preflight_cases [where P = P])
  case none
  show ?thesis
    by (rule inv_bytes_frame [OF assms])
       (simp_all add: after_preflight_frame after_preflight_none [OF none])
next
  case bad_url
  show ?thesis
    by (rule inv_bytes_frame [OF assms])
       (simp_all add: after_preflight_frame after_preflight_bad_url [OF bad_url])
next
  case some
  from assms have 1: "overallDownloadedBytes (wstatus w) = sum_list (map (received_so_far P) (queues w))"
    and 2: "\<forall>q \<in> set (queues w). queue_ok P q"
    by (simp_all add: inv_bytes_def)
  show ?thesis
    unfolding inv_bytes_def after_preflight_frame after_preflight_some [OF some]
    using 1 2 by (auto simp: sum_new_queues new_queue_ok simp del: map_map)
qed

lemma inv_bytes_main_step:
  assumes "inv_bytes P w"
  shows "inv_bytes P (main_step P w)"
proof (cases "pc w")
  case AtStart
  show ?thesis
  proof (cases "MODELS P")
    case NotSet
    with AtStart assms show ?thesis by (simp add: main_step_def inv_bytes_def)
  next
    case BadJson
    with AtStart assms show ?thesis by (simp add: main_step_def inv_bytes_def)
  next
    case (Json ms)
    let ?w1 = "w\<lparr>wstatus := (wstatus w)\<lparr>totalFiles := length ms\<rparr>, pending := ms, pc := InPreflight\<rparr>"
    have step: "main_step P w = (if ms = [] then after_preflight P ?w1 else ?w1)"
      using AtStart Json by (simp add: main_step_def Let_def)
    have w1: "inv_bytes P ?w1"
      by (rule inv_bytes_frame [OF assms]) simp_all
    from w1 inv_bytes_after_preflight [OF w1] show ?thesis
      by (simp only: step split: if_splits) simp
  qed
next
  case InPreflight
  show ?thesis
  proof (cases "pending w")
    case Nil
    with InPreflight assms show ?thesis by (simp add: main_step_def)
  next
    case (Cons m ms)
    let ?w1 = "(classify P m w)\<lparr>classified := classified w @ [m], pending := ms\<rparr>"
    have step: "main_step P w = (if ms = [] then after_preflight P ?w1 else ?w1)"
      using InPreflight Cons by (simp add: main_step_def Let_def)
    have w1: "inv_bytes P ?w1"
      by (rule inv_bytes_frame [OF assms]) (simp_all add: classify_frame)
    from w1 inv_bytes_after_preflight [OF w1] show ?thesis
      by (simp only: step split: if_splits) simp
  qed
next
  case AwaitingQueues
  with assms show ?thesis by (simp add: main_step_def inv_bytes_def)
next
  case Returned
  with assms show ?thesis by (simp add: main_step_def)
qed

lemma received_streams:
  "net P (url m) (getAuthHeaders (penv P) (url m)) = Response res \<Longrightarrow> ok res
     \<Longrightarrow> body res = Some b
     \<Longrightarrow> streams P m \<and> received P m = sum_list (map length (chunks b))"
  by (simp add: streams_def received_def)

lemma received_nothing:
  "dl_step P m Fetching fsys = (Finish r, disk', callback) \<Longrightarrow> received P m = 0"
  by (auto simp: received_def split: fetch_outcome.splits if_splits option.splits)

lemma dl_step_bytes:
  assumes r: "qrest q = m # ms"
    and st: "dl_step P m (qstate q) fsys = (nxt, disk', callback)"
    and ok: "queue_ok P q"
  shows "received_so_far P (queue_after q nxt)
           = received_so_far P q + (case callback of None \<Rightarrow> 0 | Some n \<Rightarrow> n)"
    and "queue_ok P (queue_after q nxt)"
proof -
  have both: "received_so_far P (queue_after q nxt)
           = received_so_far P q + (case callback of None \<Rightarrow> 0 | Some n \<Rightarrow> n)
      \<and> queue_ok P (queue_after q nxt)"
  proof (cases "qstate q")
    case Fetching
    show ?thesis
    proof (cases nxt)
      case (Continue s)
      with st Fetching obtain res b
        where "net P (url m) (getAuthHeaders (penv P) (url m)) = Response res" "ok res"
          "body res = Some b" "s = Reading (chunks b) (broken b) 0" "callback = None"
        by (auto split: fetch_outcome.splits if_splits option.splits)
      with received_streams [of P m res b] Continue r Fetching show ?thesis
        by (simp add: queue_after_def received_so_far_def received_current_def queue_ok_def)
    next
      case (Finish res)
      with st Fetching have "received P m = 0" "callback = None"
        by (auto simp: received_nothing split: fetch_outcome.splits if_splits option.splits)
      with Finish r Fetching show ?thesis
        by (cases ms)
           (simp_all add: queue_after_def received_so_far_def received_current_def queue_ok_def)
    next
      case Abort
      with st Fetching have "callback = None"
        by (auto split: fetch_outcome.splits if_splits option.splits)
      with Abort ok show ?thesis by (simp add: queue_after_def)
    qed
  next
    case (Reading vs br n)
    show ?thesis
    proof (cases vs)
      case Nil
      with st Reading ok r show ?thesis
        by (cases br)
           (auto simp: queue_after_def received_so_far_def received_current_def queue_ok_def)
    next
      case (Cons v vs')
      with st Reading ok r show ?thesis
        by (auto simp: queue_after_def received_so_far_def received_current_def queue_ok_def)
    qed
  next
    case (Flushing n)
    with st ok r show ?thesis
      by (cases ms)
         (auto simp: queue_after_def received_so_far_def received_current_def queue_ok_def
            split: if_splits)
  next
    case Hashing
    with st ok r show ?thesis
      by (cases ms)
         (auto simp: queue_after_def received_so_far_def received_current_def queue_ok_def
            split: if_splits option.splits)
  qed
  from both show "received_so_far P (queue_after q nxt)
           = received_so_far P q + (case callback of None \<Rightarrow> 0 | Some n \<Rightarrow> n)"
    and "queue_ok P (queue_after q nxt)"
    by simp_all
qed

lemma sum_list_map_update:
  "k < length qs \<Longrightarrow>
     sum_list (map f (qs[k := q'])) + f (qs ! k) = sum_list (map f qs) + (f q' :: nat)"
proof (induction qs arbitrary: k)
  case Nil
  then show ?case by simp
next
  case (Cons q qs)
  then show ?case by (cases k) (simp_all add: ac_simps)
qed

lemma inv_bytes_queue_step:
  assumes ib: "inv_bytes P w" and k: "k < length (queues w)"
  shows "inv_bytes P (downloadDomainQueue_step P k w)"
proof (cases "qrest (queues w ! k)")
  case Nil
  with ib show ?thesis by (simp add: queue_step_idle)
next
  case (Cons m ms)
  obtain nxt disk' callback
    where st: "dl_step P m (qstate (queues w ! k)) (disk w) = (nxt, disk', callback)"
    by (rule dl_step_cases)
  note E = queue_step_effect [OF Cons st]
  from ib have 1: "overallDownloadedBytes (wstatus w) = sum_list (map (received_so_far P) (queues w))"
    and 2: "\<forall>q \<in> set (queues w). queue_ok P q"
    by (simp_all add: inv_bytes_def)
  from 2 k have okk: "queue_ok P (queues w ! k)" by simp
  note B = dl_step_bytes [OF Cons st okk]
  let ?q' = "queue_after (queues w ! k) nxt"
  from sum_list_map_update [OF k, of "received_so_far P" ?q'] B(1) 1
  have d: "overallDownloadedBytes (wstatus (downloadDomainQueue_step P k w))
      = sum_list (map (received_so_far P) ((queues w)[k := ?q']))"
    by (simp add: E(3))
  have "set ((queues w)[k := ?q']) \<subseteq> insert ?q' (set (queues w))"
    by (rule set_update_subset_insert)
  with 2 B(2) have o: "\<forall>q \<in> set ((queues w)[k := ?q']). queue_ok P q"
    by blast
  show ?thesis
    unfolding inv_bytes_def E(2) using d o by (simp only: simp_thms)
qed

lemma inv_bytes_exec: "inv_bytes P w \<Longrightarrow> inv_bytes P (exec P ev w)"
  by (cases ev) (simp_all add: exec_def inv_bytes_main_step inv_bytes_queue_step)

lemma inv_bytes_init: "inv_bytes P (init fs0)"
  by (simp add: inv_bytes_def init_def status0_def)

section \<open>Every run keeps the invariants\<close>

lemma run_Nil: "run P [] w = w"
  by (simp add: run_def)

lemma run_snoc: "run P (evs @ [ev]) w = exec P ev (run P evs w)"
  by (simp add: run_def)

lemma invariants_run:
  "inv_pre P fs0 (run P evs (init fs0)) \<and> inv_queues P (run P evs (init fs0))
   \<and> inv_phase (run P evs (init fs0)) \<and> inv_bytes P (run P evs (init fs0))"
proof (induction evs rule: rev_induct)
  case Nil
  show ?case
    by (simp add: run_Nil inv_pre_init inv_queues_init inv_phase_init inv_bytes_init)
next
  case (snoc ev evs)
  then have 1: "inv_pre P fs0 (run P evs (init fs0))" and 2: "inv_queues P (run P evs (init fs0))"
    and 3: "inv_phase (run P evs (init fs0))" and 4: "inv_bytes P (run P evs (init fs0))"
    by simp_all
  show ?case
    unfolding run_snoc
    by (intro conjI inv_pre_exec [OF 1] inv_queues_exec [OF 2 1] inv_phase_exec [OF 3]
          inv_bytes_exec [OF 4])
qed

lemma groupBy_add_mset:
  "mset (concat (map snd (groupBy_add k x g))) = add_mset x (mset (concat (map snd g)))"
  by (induction g) auto

lemma groupBy_foldl_mset:
  "mset (concat (map snd (foldl (\<lambda>g x. groupBy_add (f x) x g) g xs)))
     = mset (concat (map snd g)) + mset xs"
  by (induction xs arbitrary: g) (simp_all add: groupBy_add_mset)

lemma groupBy_mset: "mset (concat (map snd (groupBy f xs))) = mset xs"
  by (simp add: groupBy_def groupBy_foldl_mset)

lemma done_subset_all:
  "mset (concat (map qdone qs)) \<subseteq># mset (concat (map (\<lambda>q. qdone q @ qrest q) qs))"
proof (induction qs)
  case Nil
  then show ?case by simp
next
  case (Cons q qs)
  have "mset (qdone q) + mset (concat (map qdone qs))
      \<subseteq># (mset (qdone q) + mset (qrest q)) + mset (concat (map (\<lambda>q. qdone q @ qrest q) qs))"
    by (intro subset_mset.add_mono Cons.IH) simp_all
  then show ?case by simp
qed

lemma done_eq_all:
  "\<forall>q \<in> set qs. qrest q = [] \<Longrightarrow>
     concat (map qdone qs) = concat (map (\<lambda>q. qdone q @ qrest q) qs)"
  by (induction qs) simp_all

lemma dest_with_size: "dest (with_size P m) = dest m"
  by (simp add: with_size_def)

lemma terminated_subset:
  assumes ip: "inv_pre P fs0 w" and iq: "inv_queues P w"
  shows "mset (map dest (terminated w))
           \<subseteq># mset (map dest (filter (needs_download P fs0) (classified w)))"
proof (cases "pc w = AtStart \<or> pc w = InPreflight")
  case True
  with inv_queuesD(1) [OF iq] show ?thesis by (simp add: terminated_def)
next
  case False
  then have "pc w = AwaitingQueues \<or> pc w = Returned" by (cases "pc w") simp_all
  from inv_queuesD(2) [OF iq this]
  have "mset (concat (map (\<lambda>q. qdone q @ qrest q) (queues w))) = mset (modelsWithSize w)"
    by (simp only: groupBy_mset)
  with done_subset_all [of "queues w"]
  have "mset (terminated w) \<subseteq># mset (modelsWithSize w)"
    by (simp add: terminated_def)
  then have "image_mset dest (mset (terminated w)) \<subseteq># image_mset dest (mset (modelsWithSize w))"
    by (rule image_mset_subseteq_mono)
  then have "mset (map dest (terminated w)) \<subseteq># mset (map dest (modelsWithSize w))"
    by simp
  also have "map dest (modelsWithSize w) = map dest (filter (needs_download P fs0) (classified w))"
    by (simp add: inv_preD(3) [OF ip] dest_with_size comp_def)
  finally show ?thesis .
qed

lemma classified_prefix:
  assumes ip: "inv_pre P fs0 w"
  shows "prefix (classified w) (job_list P)"
proof (cases "pc w = AtStart")
  case True
  with inv_preD(6) [OF ip] show ?thesis by simp
next
  case False
  from inv_preD(9) [OF ip False] show ?thesis by (metis prefixI)
qed

section \<open>Properties of the File Result list\<close>

lemma mset_prefix_subset: "prefix xs ys \<Longrightarrow> mset xs \<subseteq># mset ys"
  by (auto simp: prefix_def)

lemma mset_split_filter:
  "mset (map f xs) = mset (map f (filter P xs)) + mset (map f (filter (\<lambda>x. \<not> P x) xs))"
  by (induction xs) simp_all

lemma distinct_mset_subset:
  assumes sub: "mset xs \<subseteq># mset ys" and d: "distinct ys"
  shows "distinct xs"
proof -
  have le: "count (mset xs) a \<le> 1" for a
  proof -
    have "count (mset xs) a \<le> count (mset ys) a"
      by (rule mset_subset_eq_count [OF sub])
    also have "\<dots> \<le> 1"
      using d by (simp add: distinct_count_atmost_1)
    finally show ?thesis .
  qed
  have "count (mset xs) a = (if a \<in> set xs then 1 else 0)" for a
  proof (cases "a \<in> set xs")
    case True
    then have "count (mset xs) a \<noteq> 0" by (simp add: count_eq_zero_iff)
    with le [of a] have "count (mset xs) a = 1" by arith
    with True show ?thesis by (simp only: if_True)
  next
    case False
    then show ?thesis by (simp add: count_eq_zero_iff)
  qed
  then show ?thesis by (simp only: distinct_count_atmost_1) simp
qed

lemma length_mset_subset: "mset xs \<subseteq># mset ys \<Longrightarrow> length xs \<le> length ys"
  by (metis size_mset size_mset_mono)

lemma results_subset:
  assumes ip: "inv_pre P fs0 w" and iq: "inv_queues P w"
  shows "mset (map file_r (results (wstatus w))) \<subseteq># mset (map dest (job_list P))"
proof -
  let ?sk = "\<lambda>r. status r = Skipped"
  have "mset (map file_r (results (wstatus w)))
      = mset (map file_r (filter ?sk (results (wstatus w))))
        + mset (map file_r (filter (\<lambda>r. \<not> ?sk r) (results (wstatus w))))"
    by (rule mset_split_filter)
  also have "\<dots> = mset (map dest (filter (\<lambda>m. \<not> needs_download P fs0 m) (classified w)))
        + mset (map dest (terminated w))"
    by (simp only: inv_preD(4) [OF ip] inv_queuesD(3) [OF iq])
  also have "\<dots> \<subseteq># mset (map dest (filter (\<lambda>m. \<not> needs_download P fs0 m) (classified w)))
        + mset (map dest (filter (needs_download P fs0) (classified w)))"
    by (intro subset_mset.add_mono terminated_subset [OF ip iq]) simp
  also have "\<dots> = mset (map dest (classified w))"
    using mset_split_filter [of dest "classified w" "needs_download P fs0"] by (simp add: ac_simps)
  also have "\<dots> \<subseteq># mset (map dest (job_list P))"
    using classified_prefix [OF ip] by (intro mset_prefix_subset map_mono_prefix)
  finally show ?thesis .
qed

lemma results_complete:
  assumes ip: "inv_pre P fs0 w" and iq: "inv_queues P w" and ret: "pc w = Returned"
  shows "mset (map file_r (results (wstatus w))) = mset (map dest (job_list P))"
proof -
  let ?sk = "\<lambda>r. status r = Skipped"
  from inv_preD(9, 11) [OF ip] ret have cl: "classified w = job_list P" by simp
  from inv_queuesD(4) [OF iq ret]
  have "terminated w = concat (map (\<lambda>q. qdone q @ qrest q) (queues w))"
    unfolding terminated_def by (rule done_eq_all)
  then have "mset (terminated w) = mset (modelsWithSize w)"
    using inv_queuesD(2) [OF iq] ret by (simp add: groupBy_mset)
  then have "mset (map dest (terminated w)) = mset (map dest (modelsWithSize w))"
    by (metis mset_map)
  also have "map dest (modelsWithSize w) = map dest (filter (needs_download P fs0) (job_list P))"
    by (simp add: inv_preD(3) [OF ip] dest_with_size comp_def cl)
  finally have t: "mset (map dest (terminated w))
      = mset (map dest (filter (needs_download P fs0) (job_list P)))" .
  have "mset (map file_r (results (wstatus w)))
      = mset (map file_r (filter ?sk (results (wstatus w))))
        + mset (map file_r (filter (\<lambda>r. \<not> ?sk r) (results (wstatus w))))"
    by (rule mset_split_filter)
  also have "\<dots> = mset (map dest (filter (\<lambda>m. \<not> needs_download P fs0 m) (job_list P)))
        + mset (map dest (filter (needs_download P fs0) (job_list P)))"
    by (simp only: inv_preD(4) [OF ip] inv_queuesD(3) [OF iq] t cl)
  also have "\<dots> = mset (map dest (job_list P))"
    using mset_split_filter [of dest "job_list P" "needs_download P fs0"] by (simp add: ac_simps)
  finally show ?thesis .
qed

text \<open>
  The File Result list on the runs of the worker, as far as it is as described. For a job
  list with pairwise distinct destination paths, at every point of every
  run: the entries classified so far are a prefix of the job list; the File Result list
  holds one skipped result per entry classified as skipped, in order, and one result that
  is not a skip per entry whose download has terminated, and these entries are entries
  that require download; its length never exceeds the number of entries; every
  destination path appears at most once; and once \<^verbatim>\<open>main\<close> has returned, the result list
  holds exactly one entry per job entry, with the same destination paths as the input.
\<close>

theorem results_one_per_entry:
  fixes P fsys evs
  defines "w \<equiv> run P evs (init fsys)"
  assumes jobs: "MODELS P = Json ms" and dist: "distinct (map dest ms)"
  shows "prefix (classified w) ms
    \<and> map file_r (filter (\<lambda>r. status r = Skipped) (results (wstatus w)))
        = map dest (filter (\<lambda>m. \<not> needs_download P fsys m) (classified w))
    \<and> mset (map file_r (filter (\<lambda>r. status r \<noteq> Skipped) (results (wstatus w))))
        = mset (map dest (terminated w))
    \<and> mset (map dest (terminated w)) \<subseteq># mset (map dest (filter (needs_download P fsys) ms))
    \<and> length (results (wstatus w)) \<le> length ms
    \<and> distinct (map file_r (results (wstatus w)))
    \<and> (pc w = Returned \<longrightarrow>
          mset (map file_r (results (wstatus w))) = mset (map dest ms)
          \<and> set (map file_r (results (wstatus w))) = set (map dest ms)
          \<and> length (results (wstatus w)) = length ms)"
proof -
  from invariants_run [of P fsys evs] have ip: "inv_pre P fsys w" and iq: "inv_queues P w"
    by (simp_all add: w_def)
  from jobs have jl: "job_list P = ms" by (simp add: job_list_def)
  have 1: "prefix (classified w) ms"
    using classified_prefix [OF ip] by (simp only: jl)
  have 2: "map file_r (filter (\<lambda>r. status r = Skipped) (results (wstatus w)))
        = map dest (filter (\<lambda>m. \<not> needs_download P fsys m) (classified w))"
    by (rule inv_preD(4) [OF ip])
  have 3: "mset (map file_r (filter (\<lambda>r. status r \<noteq> Skipped) (results (wstatus w))))
        = mset (map dest (terminated w))"
    by (rule inv_queuesD(3) [OF iq])
  have "mset (map dest (terminated w))
      \<subseteq># mset (map dest (filter (needs_download P fsys) (classified w)))"
    by (rule terminated_subset [OF ip iq])
  also have "\<dots> \<subseteq># mset (map dest (filter (needs_download P fsys) ms))"
    using 1 by (intro mset_prefix_subset map_mono_prefix filter_mono_prefix)
  finally have 4: "mset (map dest (terminated w))
      \<subseteq># mset (map dest (filter (needs_download P fsys) ms))" .
  have sub: "mset (map file_r (results (wstatus w))) \<subseteq># mset (map dest ms)"
    using results_subset [OF ip iq] by (simp only: jl)
  have 5: "length (results (wstatus w)) \<le> length ms"
    using length_mset_subset [OF sub] by simp
  have 6: "distinct (map file_r (results (wstatus w)))"
    by (rule distinct_mset_subset [OF sub dist])
  have 7: "pc w = Returned \<longrightarrow>
          mset (map file_r (results (wstatus w))) = mset (map dest ms)
          \<and> set (map file_r (results (wstatus w))) = set (map dest ms)
          \<and> length (results (wstatus w)) = length ms"
  proof
    assume "pc w = Returned"
    from results_complete [OF ip iq this]
    have m: "mset (map file_r (results (wstatus w))) = mset (map dest ms)"
      by (simp only: jl)
    from m have "set (map file_r (results (wstatus w))) = set (map dest ms)"
      by (rule mset_eq_setD)
    moreover from m have "length (map file_r (results (wstatus w))) = length (map dest ms)"
      by (rule mset_eq_length)
    ultimately show "mset (map file_r (results (wstatus w))) = mset (map dest ms)
          \<and> set (map file_r (results (wstatus w))) = set (map dest ms)
          \<and> length (results (wstatus w)) = length ms"
      using m by simp
  qed
  from 1 2 3 4 5 6 7 show ?thesis by (intro conjI)
qed

theorem results_one_per_entry_witness:
  "MODELS platform_ex = Json models_ex \<and> distinct (map dest models_ex)
   \<and> pc (run platform_ex schedule_ex (init disk_ex)) = Returned
   \<and> set (map file_r (results (wstatus (run platform_ex schedule_ex (init disk_ex)))))
       = set (map dest models_ex)
   \<and> length (results (wstatus (run platform_ex schedule_ex (init disk_ex)))) = length models_ex
   \<and> distinct (map file_r (results (wstatus (run platform_ex (take 9 schedule_ex) (init disk_ex)))))
   \<and> length (results (wstatus (run platform_ex (take 9 schedule_ex) (init disk_ex))))
       \<le> length models_ex"
proof -
  have h1: "MODELS platform_ex = Json models_ex"
    by (simp add: platform_ex_def)
  have h2: "distinct (map dest models_ex)"
    by (simp add: models_ex_def model_ex_def)
  have r: "pc (run platform_ex schedule_ex (init disk_ex)) = Returned"
    by code_simp
  from results_one_per_entry [where P = platform_ex and evs = schedule_ex and fsys = disk_ex, OF h1 h2]
    results_one_per_entry [where P = platform_ex and evs = "take 9 schedule_ex" and fsys = disk_ex,
      OF h1 h2]
    h1 h2 r
  show ?thesis by simp
qed

lemma exec_crashed: "crashed w \<Longrightarrow> exec P ev w = w"
  by (simp add: exec_def)

lemma run_crashed: "crashed w \<Longrightarrow> run P evs w = w"
  by (induction evs rule: rev_induct) (simp_all add: run_Nil run_snoc exec_crashed)

text \<open>
  C3 on a run that a rejected request ends. The job list has two entries with distinct
  destination paths, on two hosts. After the preflight both are in flight. The request
  for the first one is rejected (\<^verbatim>\<open>fetch\<close> rejects in \<^verbatim>\<open>downloadModel\<close>, where nothing catches
  it, whereas \<^verbatim>\<open>fetchFileSize\<close> catches the rejection of the same request): the rejection
  escapes \<^verbatim>\<open>main\<close> and ends the process in the phase downloading, with a File Result for
  neither entry, and no later event adds one.
\<close>

theorem results_lost_on_rejected_fetch:
  "MODELS platform_down = Json models_down
   \<and> distinct (map dest models_down)
   \<and> net platform_down ''https://b.example/down''
        (getAuthHeaders (penv platform_down) ''https://b.example/down'') = NetworkError
   \<and> map dest (in_flight (run platform_down (take 3 schedule_down) (init Map.empty)))
        = [''m5.bin'', ''m2.bin'']
   \<and> crashed (run platform_down schedule_down (init Map.empty))
   \<and> pc (run platform_down schedule_down (init Map.empty)) = AwaitingQueues
   \<and> phase (wstatus (run platform_down schedule_down (init Map.empty))) = Downloading
   \<and> results (wstatus (run platform_down schedule_down (init Map.empty))) = []
   \<and> results (wstatus (run platform_down (schedule_down @ [Queue 1, Queue 1, Main])
        (init Map.empty))) = []"
proof -
  have 1: "MODELS platform_down = Json models_down"
    by (simp add: platform_down_def)
  have 2: "distinct (map dest models_down)"
    by (simp add: models_down_def model_ex_def)
  have 3: "net platform_down ''https://b.example/down''
        (getAuthHeaders (penv platform_down) ''https://b.example/down'') = NetworkError"
    by (simp add: platform_down_def platform_ex_def net_ex_def)
  have 4: "map dest (in_flight (run platform_down (take 3 schedule_down) (init Map.empty)))
        = [''m5.bin'', ''m2.bin'']"
    by code_simp
  have 5: "crashed (run platform_down schedule_down (init Map.empty))"
    by code_simp
  have 6: "pc (run platform_down schedule_down (init Map.empty)) = AwaitingQueues"
    by code_simp
  have 7: "phase (wstatus (run platform_down schedule_down (init Map.empty))) = Downloading"
    by code_simp
  have 8: "results (wstatus (run platform_down schedule_down (init Map.empty))) = []"
    by code_simp
  have 9: "results (wstatus (run platform_down (schedule_down @ [Queue 1, Queue 1, Main])
        (init Map.empty))) = []"
    by code_simp
  from 1 2 3 4 5 6 7 8 9 show ?thesis by (intro conjI)
qed

section \<open>Properties of the host partitions\<close>

lemma current_key:
  assumes keys: "\<forall>p \<in> set g. \<forall>x \<in> set (snd p). f x = fst p"
    and all: "map (\<lambda>q. qdone q @ qrest q) qs = map snd g"
    and x: "x \<in> set (concat (map (\<lambda>q. take 1 (qrest q)) qs))"
  shows "f x \<in> fst ` set g"
proof -
  from x obtain q where q: "q \<in> set qs" and "x \<in> set (take 1 (qrest q))" by auto
  then have xq: "x \<in> set (qdone q @ qrest q)" by (auto dest: in_set_takeD)
  from q have "qdone q @ qrest q \<in> set (map (\<lambda>q. qdone q @ qrest q) qs)" by simp
  then have "qdone q @ qrest q \<in> set (map snd g)" by (simp only: all)
  then obtain p where p: "p \<in> set g" and "snd p = qdone q @ qrest q" by auto
  with keys xq have "f x = fst p" by metis
  with p show ?thesis by blast
qed

lemma one_per_key:
  assumes "distinct (map fst g)"
    and "\<forall>p \<in> set g. \<forall>x \<in> set (snd p). f x = fst p"
    and "map (\<lambda>q. qdone q @ qrest q) qs = map snd g"
  shows "length (filter (\<lambda>m. f m = h) (concat (map (\<lambda>q. take 1 (qrest q)) qs))) \<le> 1"
  using assms
proof (induction qs arbitrary: g)
  case Nil
  then show ?case by simp
next
  case (Cons q qs)
  from Cons.prems(3) obtain p g' where g: "g = p # g'" and p: "snd p = qdone q @ qrest q"
    and all': "map (\<lambda>q. qdone q @ qrest q) qs = map snd g'"
    by (cases g) auto
  from Cons.prems(1) g have d': "distinct (map fst g')" and np: "fst p \<notin> fst ` set g'"
    by simp_all
  from Cons.prems(2) g have k': "\<forall>p \<in> set g'. \<forall>x \<in> set (snd p). f x = fst p"
    and kp: "\<forall>x \<in> set (snd p). f x = fst p"
    by simp_all
  have cur: "\<forall>x \<in> set (take 1 (qrest q)). f x = fst p"
    using kp p by (auto dest: in_set_takeD)
  show ?case
  proof (cases "fst p = h")
    case True
    have "f x \<noteq> h" if "x \<in> set (concat (map (\<lambda>q. take 1 (qrest q)) qs))" for x
    proof
      assume "f x = h"
      with current_key [OF k' all' that] have "h \<in> fst ` set g'" by simp
      with np True show False by simp
    qed
    then have "filter (\<lambda>m. f m = h) (concat (map (\<lambda>q. take 1 (qrest q)) qs)) = []"
      by (simp only: filter_empty_conv) simp
    moreover have "length (filter (\<lambda>m. f m = h) (take 1 (qrest q))) \<le> 1"
      by (rule order_trans [OF length_filter_le]) simp
    ultimately show ?thesis by simp
  next
    case False
    with cur have "filter (\<lambda>m. f m = h) (take 1 (qrest q)) = []"
      by (simp only: filter_empty_conv) simp
    with Cons.IH [OF d' k' all'] show ?thesis by simp
  qed
qed

lemma grouped_keys:
  "grouped f xs g \<Longrightarrow> \<forall>p \<in> set g. \<forall>x \<in> set (snd p). f x = fst p"
  by (auto simp: grouped_def)

lemma grouped_nonempty:
  assumes "grouped f xs g" and "p \<in> set g"
  shows "snd p = filter (\<lambda>y. f y = fst p) xs \<and> snd p \<noteq> []"
proof -
  from assms have s: "snd p = filter (\<lambda>y. f y = fst p) xs" by (simp add: grouped_def)
  from assms have "fst p \<in> f ` set xs" by (auto simp: grouped_def)
  then obtain x where "x \<in> set xs" "f x = fst p" by auto
  then have "filter (\<lambda>y. f y = fst p) xs \<noteq> []" by (auto simp: filter_empty_conv)
  with s show ?thesis by simp
qed

lemma in_flight_one_per_host:
  assumes iq: "inv_queues P w"
  shows "length (filter (\<lambda>m. host_of P m = h) (in_flight w)) \<le> 1"
proof (cases "pc w = AtStart \<or> pc w = InPreflight")
  case True
  with inv_queuesD(1) [OF iq] show ?thesis by (simp add: in_flight_def)
next
  case False
  then have "pc w = AwaitingQueues \<or> pc w = Returned" by (cases "pc w") simp_all
  note all = inv_queuesD(2) [OF iq this]
  have g: "grouped (host_of P) (modelsWithSize w) (groupBy (host_of P) (modelsWithSize w))"
    by (rule grouped_groupBy)
  then have d: "distinct (map fst (groupBy (host_of P) (modelsWithSize w)))"
    by (simp add: grouped_def)
  show ?thesis
    unfolding in_flight_def by (rule one_per_key [OF d grouped_keys [OF g] all])
qed

lemma queue_is_host_partition:
  assumes iq: "inv_queues P w" and pc: "pc w = AwaitingQueues \<or> pc w = Returned"
    and q: "q \<in> set (queues w)"
  shows "\<exists>h. qdone q @ qrest q = filter (\<lambda>m. host_of P m = h) (modelsWithSize w)
           \<and> qdone q @ qrest q \<noteq> []"
proof -
  from q have "qdone q @ qrest q \<in> set (map (\<lambda>q. qdone q @ qrest q) (queues w))" by simp
  then have "qdone q @ qrest q \<in> set (map snd (groupBy (host_of P) (modelsWithSize w)))"
    by (simp only: inv_queuesD(2) [OF iq pc])
  then obtain p where p: "p \<in> set (groupBy (host_of P) (modelsWithSize w))"
    and s: "snd p = qdone q @ qrest q" by auto
  from grouped_nonempty [OF grouped_groupBy p] s show ?thesis by metis
qed

lemma done_recorded:
  assumes iq: "inv_queues P w" and q: "q \<in> set (queues w)"
  shows "set (map dest (qdone q))
           \<subseteq> set (map file_r (filter (\<lambda>r. status r \<noteq> Skipped) (results (wstatus w))))"
proof -
  from inv_queuesD(3) [OF iq]
  have "set (map file_r (filter (\<lambda>r. status r \<noteq> Skipped) (results (wstatus w))))
      = set (map dest (terminated w))"
    by (rule mset_eq_setD)
  moreover from q have "set (map dest (qdone q)) \<subseteq> set (map dest (terminated w))"
    by (auto simp: terminated_def)
  ultimately show ?thesis by simp
qed

lemma two_in_flight_ex:
  "map (host_of platform_ex) (in_flight (run platform_ex (take 7 schedule_ex) (init disk_ex)))
     = [Some ''a.example'', Some ''b.example'']"
  by code_simp

text \<open>
  C4. At every point of every run, at most one entry per remote hostname is in flight;
  nothing is in flight before the download phase; in the download phase the entries that
  require download are partitioned by the hostname of their URL, every host partition
  holding, in the order of the job list, exactly the entries of one hostname; within a
  partition the entries before the current one have terminated and their results are
  recorded (the current entry is started in the step that records the result of the
  previous one); and entries of distinct hostnames can be in flight at the same time.
\<close>

theorem one_download_per_host:
  fixes P fsys evs
  defines "w \<equiv> run P evs (init fsys)"
  shows "(\<forall>h. length (filter (\<lambda>m. host_of P m = h) (in_flight w)) \<le> 1)
    \<and> (pc w = AtStart \<or> pc w = InPreflight \<longrightarrow> in_flight w = [])
    \<and> (pc w = AwaitingQueues \<or> pc w = Returned \<longrightarrow>
          mset (concat (map (\<lambda>q. qdone q @ qrest q) (queues w))) = mset (modelsWithSize w)
          \<and> (\<forall>q \<in> set (queues w). \<exists>h.
                qdone q @ qrest q = filter (\<lambda>m. host_of P m = h) (modelsWithSize w)
                \<and> qdone q @ qrest q \<noteq> []))
    \<and> modelsWithSize w = map (with_size P) (filter (needs_download P fsys) (classified w))
    \<and> (\<forall>q \<in> set (queues w).
          set (map dest (qdone q))
            \<subseteq> set (map file_r (filter (\<lambda>r. status r \<noteq> Skipped) (results (wstatus w)))))
    \<and> (\<exists>P' fs' evs'. 1 < length (in_flight (run P' evs' (init fs'))))"
proof -
  from invariants_run [of P fsys evs] have ip: "inv_pre P fsys w" and iq: "inv_queues P w"
    by (simp_all add: w_def)
  have 1: "\<forall>h. length (filter (\<lambda>m. host_of P m = h) (in_flight w)) \<le> 1"
    using in_flight_one_per_host [OF iq] by blast
  have 2: "pc w = AtStart \<or> pc w = InPreflight \<longrightarrow> in_flight w = []"
    using inv_queuesD(1) [OF iq] by (simp add: in_flight_def)
  have 3: "pc w = AwaitingQueues \<or> pc w = Returned \<longrightarrow>
          mset (concat (map (\<lambda>q. qdone q @ qrest q) (queues w))) = mset (modelsWithSize w)
          \<and> (\<forall>q \<in> set (queues w). \<exists>h.
                qdone q @ qrest q = filter (\<lambda>m. host_of P m = h) (modelsWithSize w)
                \<and> qdone q @ qrest q \<noteq> [])"
  proof
    assume pc: "pc w = AwaitingQueues \<or> pc w = Returned"
    have "mset (concat (map (\<lambda>q. qdone q @ qrest q) (queues w))) = mset (modelsWithSize w)"
      by (simp only: inv_queuesD(2) [OF iq pc] groupBy_mset)
    moreover have "\<forall>q \<in> set (queues w). \<exists>h.
                qdone q @ qrest q = filter (\<lambda>m. host_of P m = h) (modelsWithSize w)
                \<and> qdone q @ qrest q \<noteq> []"
      using queue_is_host_partition [OF iq pc] by blast
    ultimately show "mset (concat (map (\<lambda>q. qdone q @ qrest q) (queues w))) = mset (modelsWithSize w)
          \<and> (\<forall>q \<in> set (queues w). \<exists>h.
                qdone q @ qrest q = filter (\<lambda>m. host_of P m = h) (modelsWithSize w)
                \<and> qdone q @ qrest q \<noteq> [])"
      by (rule conjI)
  qed
  have 4: "modelsWithSize w = map (with_size P) (filter (needs_download P fsys) (classified w))"
    by (rule inv_preD(3) [OF ip])
  have 5: "\<forall>q \<in> set (queues w).
          set (map dest (qdone q))
            \<subseteq> set (map file_r (filter (\<lambda>r. status r \<noteq> Skipped) (results (wstatus w))))"
    using done_recorded [OF iq] by blast
  have "length (map (host_of platform_ex) (in_flight (run platform_ex (take 7 schedule_ex) (init disk_ex)))) = 2"
    by (simp only: two_in_flight_ex) simp
  then have "1 < length (in_flight (run platform_ex (take 7 schedule_ex) (init disk_ex)))"
    by simp
  then have 6: "\<exists>P' fs' evs'. 1 < length (in_flight (run P' evs' (init fs')))"
    by blast
  from 1 2 3 4 5 6 show ?thesis by (intro conjI)
qed

theorem one_download_per_host_witness:
  "pc (run platform_ex (take 7 schedule_ex) (init disk_ex)) = AwaitingQueues
   \<and> map dest (in_flight (run platform_ex (take 7 schedule_ex) (init disk_ex)))
       = [''m2.bin'', ''m3.bin'']
   \<and> map (host_of platform_ex) (in_flight (run platform_ex (take 7 schedule_ex) (init disk_ex)))
       = [Some ''a.example'', Some ''b.example'']
   \<and> length (filter (\<lambda>m. host_of platform_ex m = Some ''a.example'')
        (in_flight (run platform_ex (take 7 schedule_ex) (init disk_ex)))) \<le> 1
   \<and> mset (concat (map (\<lambda>q. qdone q @ qrest q)
        (queues (run platform_ex (take 7 schedule_ex) (init disk_ex)))))
       = mset (modelsWithSize (run platform_ex (take 7 schedule_ex) (init disk_ex)))"
proof -
  have pc: "pc (run platform_ex (take 7 schedule_ex) (init disk_ex)) = AwaitingQueues"
    by code_simp
  have d: "map dest (in_flight (run platform_ex (take 7 schedule_ex) (init disk_ex)))
       = [''m2.bin'', ''m3.bin'']"
    by code_simp
  from one_download_per_host [where P = platform_ex and evs = "take 7 schedule_ex" and fsys = disk_ex] pc d two_in_flight_ex
  show ?thesis by simp
qed

section \<open>Properties of the phase\<close>

lemma main_step_NotSet:
  "pc w = AtStart \<Longrightarrow> MODELS P = NotSet \<Longrightarrow>
     main_step P w = w\<lparr>wstatus := (wstatus w)\<lparr>phase := FailedPhase,
        error := Some ''MODELS environment variable is not set''\<rparr>, pc := Returned\<rparr>"
  by (simp add: main_step_def)

lemma main_step_BadJson:
  "pc w = AtStart \<Longrightarrow> MODELS P = BadJson \<Longrightarrow> main_step P w = w\<lparr>crashed := True\<rparr>"
  by (simp add: main_step_def)

lemma main_step_Json:
  "pc w = AtStart \<Longrightarrow> MODELS P = Json ms \<Longrightarrow>
     main_step P w = (if ms = [] then after_preflight P (begun ms w) else begun ms w)"
  by (simp add: main_step_def Let_def begun_def)

lemma main_step_classify:
  "pc w = InPreflight \<Longrightarrow> pending w = m # ms \<Longrightarrow>
     main_step P w =
       (if ms = [] then after_preflight P (classified_one P m ms w) else classified_one P m ms w)"
  by (simp add: main_step_def Let_def classified_one_def)

lemma main_step_finish:
  "pc w = AwaitingQueues \<Longrightarrow>
     main_step P w =
       (if \<forall>q \<in> set (queues w). qrest q = []
        then w\<lparr>wstatus := (wstatus w)\<lparr>phase :=
               (if failed (serializeStatus (wstatus w)) > 0 then FailedPhase else Completed)\<rparr>,
             pc := Returned\<rparr>
        else w)"
  by (simp add: main_step_def)

lemma inv_pre_started:
  assumes "inv_pre P fs0 w" and "pc w = AtStart" and "MODELS P = Json ms"
  shows "inv_pre P fs0 (begun ms w)"
  unfolding inv_pre_def begun_def
  using inv_preD [OF assms(1)] assms(2, 3) by (simp add: job_list_def status0_def)

lemma failed_count:
  "(failed (serializeStatus st) > 0) = (\<exists>r \<in> set (results st). status r = Failed)"
proof -
  have "failed (serializeStatus st) = length (filter (\<lambda>r. status r = Failed) (results st))"
    by (simp add: serializeStatus_def StatusInternal.extend_def StatusDocument.fields_def)
  moreover have "(length (filter (\<lambda>r. status r = Failed) (results st)) > 0)
      = (filter (\<lambda>r. status r = Failed) (results st) \<noteq> [])"
    by (rule length_greater_0_conv)
  ultimately show ?thesis by (simp only: filter_empty_conv) blast
qed

lemma after_preflight_phase:
  assumes ip: "inv_pre P fs0 w" and pc: "pc w = InPreflight" and pe: "pending w = []"
  shows "(phase (wstatus (after_preflight P w)) = Downloading
            \<and> (\<exists>m \<in> set (job_list P). needs_download P fs0 m))
         \<or> (phase (wstatus (after_preflight P w)) = Completed
            \<and> (\<forall>m \<in> set (job_list P). \<not> needs_download P fs0 m))"
proof -
  from inv_preD(9) [OF ip] pc pe have cl: "classified w = job_list P" by simp
  from inv_preD(3) [OF ip] cl
  have mws: "modelsWithSize w = map (with_size P) (filter (needs_download P fs0) (job_list P))"
    by simp
  show ?thesis
  proof (cases "modelsWithSize w = []")
    case True
    with mws have "\<forall>m \<in> set (job_list P). \<not> needs_download P fs0 m"
      by (simp add: filter_empty_conv)
    with after_preflight_none(2) [OF True] show ?thesis by simp
  next
    case False
    with mws have n: "\<exists>m \<in> set (job_list P). needs_download P fs0 m"
      by (simp add: filter_empty_conv)
    have "phase (wstatus (after_preflight P w)) = Downloading"
      by (cases w rule: after_preflight_cases [where P = P])
         (simp_all add: False after_preflight_bad_url after_preflight_some)
    with n show ?thesis by simp
  qed
qed

lemma inv_phaseD:
  assumes "inv_phase w"
  shows "pc w = AtStart \<Longrightarrow> phase (wstatus w) = Preflight"
    and "pc w = InPreflight \<Longrightarrow> \<not> crashed w \<Longrightarrow> phase (wstatus w) = Preflight"
    and "pc w = AwaitingQueues \<Longrightarrow> phase (wstatus w) = Downloading"
    and "pc w = Returned \<Longrightarrow> phase (wstatus w) = Completed \<or> phase (wstatus w) = FailedPhase"
    and "pc w = InPreflight \<Longrightarrow> \<not> crashed w \<Longrightarrow> pending w \<noteq> []"
  using assms by (auto simp: inv_phase_def)

lemma terminal_phase_returned:
  assumes iph: "inv_phase w"
    and t: "phase (wstatus w) = Completed \<or> phase (wstatus w) = FailedPhase"
  shows "crashed w \<or> pc w = Returned"
proof (cases "crashed w")
  case True
  then show ?thesis by simp
next
  case False
  show ?thesis
  proof (cases "pc w")
    case AtStart
    with inv_phaseD(1) [OF iph] t show ?thesis by simp
  next
    case InPreflight
    with inv_phaseD(2) [OF iph] False t show ?thesis by simp
  next
    case AwaitingQueues
    with inv_phaseD(3) [OF iph] t show ?thesis by simp
  next
    case Returned
    then show ?thesis by simp
  qed
qed

lemma terminal_phase_final:
  assumes iph: "inv_phase w"
    and t: "phase (wstatus w) = Completed \<or> phase (wstatus w) = FailedPhase"
  shows "exec P ev w = w"
proof -
  from terminal_phase_returned [OF iph t] show ?thesis
    by (cases ev) (auto simp: exec_def main_step_def)
qed

lemma phase_main_step:
  assumes ip: "inv_pre P fs0 w" and iph: "inv_phase w" and nc: "\<not> crashed w"
  shows "phase (wstatus (main_step P w)) = phase (wstatus w) \<or> phase_edge P fs0 w (main_step P w)"
proof (cases "pc w")
  case AtStart
  note ph = inv_phaseD(1) [OF iph AtStart]
  show ?thesis
  proof (cases "MODELS P")
    case NotSet
    from inv_preD(8) [OF ip AtStart] have "results (wstatus w) = []" by (simp add: status0_def)
    with ph NotSet show ?thesis
      by (simp add: main_step_NotSet [OF AtStart NotSet] phase_edge_def)
  next
    case BadJson
    then show ?thesis by (simp add: main_step_BadJson [OF AtStart BadJson])
  next
    case (Json ms)
    note st = main_step_Json [OF AtStart Json]
    show ?thesis
    proof (cases "ms = []")
      case True
      have "pc (begun ms w) = InPreflight" "pending (begun ms w) = []"
        "phase (wstatus (begun ms w)) = Preflight"
        using True ph by (simp_all add: begun_def)
      with after_preflight_phase [OF inv_pre_started [OF ip AtStart Json]] ph Json True
      show ?thesis by (auto simp: st phase_edge_def)
    next
      case False
      then show ?thesis by (simp add: st begun_def)
    qed
  qed
next
  case InPreflight
  note ph = inv_phaseD(2) [OF iph InPreflight nc]
  from inv_phaseD(5) [OF iph InPreflight nc] obtain m ms where p: "pending w = m # ms"
    by (cases "pending w") auto
  note st = main_step_classify [OF InPreflight p]
  have nn: "MODELS P \<noteq> NotSet"
  proof
    assume "MODELS P = NotSet"
    then have "job_list P = []" by (simp add: job_list_def)
    with inv_preD(9) [OF ip] InPreflight p show False by simp
  qed
  show ?thesis
  proof (cases "ms = []")
    case True
    have i1: "inv_pre P fs0 (classified_one P m ms w)"
      unfolding classified_one_def by (rule inv_pre_classified [OF ip InPreflight p])
    have "pc (classified_one P m ms w) = InPreflight" "pending (classified_one P m ms w) = []"
      using True InPreflight by (simp_all add: classified_one_def classify_frame)
    with after_preflight_phase [OF i1] ph nn True
    show ?thesis by (auto simp: st phase_edge_def)
  next
    case False
    then show ?thesis by (simp add: st classified_one_def classify_frame)
  qed
next
  case AwaitingQueues
  note ph = inv_phaseD(3) [OF iph AwaitingQueues]
  show ?thesis
    using ph by (auto simp: main_step_finish [OF AwaitingQueues] phase_edge_def failed_count)
next
  case Returned
  then show ?thesis by (simp add: main_step_def)
qed

lemma phase_queue_step:
  "phase (wstatus (downloadDomainQueue_step P k w)) = phase (wstatus w)"
proof (cases "qrest (queues w ! k)")
  case Nil
  then show ?thesis by (simp add: queue_step_idle)
next
  case (Cons m ms)
  obtain nxt disk' callback
    where st: "dl_step P m (qstate (queues w ! k)) (disk w) = (nxt, disk', callback)"
    by (rule dl_step_cases)
  show ?thesis by (rule queue_step_frame(5) [OF Cons st])
qed

lemma phase_exec:
  assumes ip: "inv_pre P fs0 w" and iph: "inv_phase w"
  shows "phase (wstatus (exec P ev w)) = phase (wstatus w) \<or> phase_edge P fs0 w (exec P ev w)"
proof (cases "crashed w")
  case True
  then show ?thesis by (simp add: exec_def)
next
  case False
  show ?thesis
  proof (cases ev)
    case Main
    with phase_main_step [OF ip iph False] False show ?thesis by (simp add: exec_def)
  next
    case (Queue k)
    with False show ?thesis by (simp add: exec_def phase_queue_step)
  qed
qed

text \<open>
  C5, as claimed: the phase moves only along preflight, downloading, completed or failed,
  with the direct move from preflight to completed when every entry was skipped, and the
  terminal phase is failed iff some entry's result is failed. Without a job list the
  first step of \<^verbatim>\<open>main\<close> moves the phase from preflight directly to failed, with no result
  at all.
\<close>

theorem phase_transitions_counterexample:
  "phase (wstatus (init Map.empty)) = Preflight
   \<and> phase (wstatus (exec (platform_ex\<lparr>MODELS := NotSet\<rparr>) Main (init Map.empty))) = FailedPhase
   \<and> results (wstatus (exec (platform_ex\<lparr>MODELS := NotSet\<rparr>) Main (init Map.empty))) = []"
  by (simp add: exec_def main_step_def init_def status0_def platform_ex_def)

text \<open>
  C5, amended. The phase starts in preflight, and every step of every run either leaves
  it as it is or moves it: from preflight to downloading, and then at least one entry of
  the job list requires download; from preflight directly to completed, and then there is
  a job list and none of its entries requires download; from preflight directly to failed,
  and then the job list is absent, the error message is set and there are no results;
  from downloading to a terminal phase, and then every host partition has finished and
  the phase is failed iff some result is failed and completed otherwise. No step changes
  anything once the phase is completed or failed.
\<close>

theorem phase_transitions:
  fixes P fsys evs ev
  defines "w \<equiv> run P evs (init fsys)"
  defines "w' \<equiv> exec P ev (run P evs (init fsys))"
  shows "phase (wstatus (init fsys)) = Preflight
    \<and> (phase (wstatus w') = phase (wstatus w)
        \<or> (phase (wstatus w) = Preflight \<and> phase (wstatus w') = Downloading
            \<and> (\<exists>m \<in> set (job_list P). needs_download P fsys m))
        \<or> (phase (wstatus w) = Preflight \<and> phase (wstatus w') = Completed
            \<and> MODELS P \<noteq> NotSet \<and> (\<forall>m \<in> set (job_list P). \<not> needs_download P fsys m))
        \<or> (phase (wstatus w) = Preflight \<and> phase (wstatus w') = FailedPhase
            \<and> MODELS P = NotSet
            \<and> error (wstatus w') = Some ''MODELS environment variable is not set''
            \<and> results (wstatus w') = [])
        \<or> (phase (wstatus w) = Downloading \<and> (\<forall>q \<in> set (queues w). qrest q = [])
            \<and> phase (wstatus w') =
                (if \<exists>r \<in> set (results (wstatus w')). status r = Failed
                 then FailedPhase else Completed)))
    \<and> (phase (wstatus w) = Completed \<or> phase (wstatus w) = FailedPhase \<longrightarrow> w' = w)"
proof -
  from invariants_run [of P fsys evs] have ip: "inv_pre P fsys w" and iph: "inv_phase w"
    by (simp_all add: w_def)
  have 1: "phase (wstatus (init fsys)) = Preflight"
    by (simp add: init_def status0_def)
  from phase_exec [OF ip iph, of ev]
  have 2: "phase (wstatus w') = phase (wstatus w)
        \<or> (phase (wstatus w) = Preflight \<and> phase (wstatus w') = Downloading
            \<and> (\<exists>m \<in> set (job_list P). needs_download P fsys m))
        \<or> (phase (wstatus w) = Preflight \<and> phase (wstatus w') = Completed
            \<and> MODELS P \<noteq> NotSet \<and> (\<forall>m \<in> set (job_list P). \<not> needs_download P fsys m))
        \<or> (phase (wstatus w) = Preflight \<and> phase (wstatus w') = FailedPhase
            \<and> MODELS P = NotSet
            \<and> error (wstatus w') = Some ''MODELS environment variable is not set''
            \<and> results (wstatus w') = [])
        \<or> (phase (wstatus w) = Downloading \<and> (\<forall>q \<in> set (queues w). qrest q = [])
            \<and> phase (wstatus w') =
                (if \<exists>r \<in> set (results (wstatus w')). status r = Failed
                 then FailedPhase else Completed))"
    unfolding phase_edge_def w'_def w_def by blast
  have 3: "phase (wstatus w) = Completed \<or> phase (wstatus w) = FailedPhase \<longrightarrow> w' = w"
    using terminal_phase_final [OF iph] by (simp add: w'_def w_def)
  from 1 2 3 show ?thesis by (intro conjI)
qed

theorem phase_transitions_witness:
  "phase (wstatus (run platform_ex (take 4 schedule_ex) (init disk_ex))) = Preflight
   \<and> phase (wstatus (exec platform_ex Main (run platform_ex (take 4 schedule_ex) (init disk_ex))))
       = Downloading
   \<and> (\<exists>m \<in> set (job_list platform_ex). needs_download platform_ex disk_ex m)
   \<and> phase (wstatus (run platform_ex (take 17 schedule_ex) (init disk_ex))) = Downloading
   \<and> phase (wstatus (exec platform_ex Main (run platform_ex (take 17 schedule_ex) (init disk_ex))))
       = FailedPhase
   \<and> (\<exists>r \<in> set (results (wstatus (exec platform_ex Main
          (run platform_ex (take 17 schedule_ex) (init disk_ex))))). status r = Failed)
   \<and> exec platform_ex (Queue 0) (run platform_ex schedule_ex (init disk_ex))
       = run platform_ex schedule_ex (init disk_ex)"
proof -
  have a: "phase (wstatus (run platform_ex (take 4 schedule_ex) (init disk_ex))) = Preflight"
    by code_simp
  have b: "phase (wstatus (exec platform_ex Main (run platform_ex (take 4 schedule_ex) (init disk_ex))))
       = Downloading"
    by code_simp
  have c: "phase (wstatus (run platform_ex (take 17 schedule_ex) (init disk_ex))) = Downloading"
    by code_simp
  have d: "phase (wstatus (exec platform_ex Main (run platform_ex (take 17 schedule_ex) (init disk_ex))))
       = FailedPhase"
    by code_simp
  have e: "phase (wstatus (run platform_ex schedule_ex (init disk_ex))) = FailedPhase"
    by code_simp
  from phase_transitions [where P = platform_ex and evs = "take 4 schedule_ex" and ev = Main
      and fsys = disk_ex] a b
  have 1: "\<exists>m \<in> set (job_list platform_ex). needs_download platform_ex disk_ex m"
    by simp
  from phase_transitions [where P = platform_ex and evs = "take 17 schedule_ex" and ev = Main
      and fsys = disk_ex] c d
  have 2: "\<exists>r \<in> set (results (wstatus (exec platform_ex Main
          (run platform_ex (take 17 schedule_ex) (init disk_ex))))). status r = Failed"
    by (simp split: if_splits)
  from phase_transitions [where P = platform_ex and evs = schedule_ex and ev = "Queue 0"
      and fsys = disk_ex] e
  have 3: "exec platform_ex (Queue 0) (run platform_ex schedule_ex (init disk_ex))
       = run platform_ex schedule_ex (init disk_ex)"
    by simp
  from a b c d 1 2 3 show ?thesis by (intro conjI)
qed

section \<open>Properties of the byte counters\<close>

lemma sum_done:
  "\<forall>q \<in> set qs. qrest q = [] \<Longrightarrow>
     sum_list (map (received_so_far P) qs) = sum_list (map (received P) (concat (map qdone qs)))"
  by (induction qs) (simp_all add: received_so_far_def)

lemma sum_list_mset_cong:
  "mset xs = mset ys \<Longrightarrow> sum_list (map f xs) = (sum_list (map f ys) :: nat)"
  by (metis mset_map sum_mset_sum_list)

lemma downloaded_at_end:
  assumes ib: "inv_bytes P w" and iq: "inv_queues P w" and ret: "pc w = Returned"
  shows "overallDownloadedBytes (wstatus w) = sum_list (map (received P) (modelsWithSize w))"
proof -
  note fin = inv_queuesD(4) [OF iq ret]
  from ib have "overallDownloadedBytes (wstatus w) = sum_list (map (received_so_far P) (queues w))"
    by (simp add: inv_bytes_def)
  also have "\<dots> = sum_list (map (received P) (concat (map qdone (queues w))))"
    by (rule sum_done [OF fin])
  also have "concat (map qdone (queues w)) = concat (map (\<lambda>q. qdone q @ qrest q) (queues w))"
    by (rule done_eq_all [OF fin])
  also have "sum_list (map (received P) (concat (map (\<lambda>q. qdone q @ qrest q) (queues w))))
      = sum_list (map (received P) (modelsWithSize w))"
    using inv_queuesD(2) [OF iq] ret
    by (intro sum_list_mset_cong) (simp add: groupBy_mset)
  finally show ?thesis .
qed

lemma bytes_exceed_ex:
  "overallTotalBytes (wstatus (run platform_ex schedule_ex (init disk_ex))) = 5
   \<and> overallDownloadedBytes (wstatus (run platform_ex schedule_ex (init disk_ex))) = 6"
  by code_simp

lemma percent_ex: "percent (wstatus (run platform_ex schedule_ex (init disk_ex))) = 120"
  using bytes_exceed_ex by (simp add: percent_def)

text \<open>
  C10. At every point of every run \<^verbatim>\<open>overallTotalBytes\<close> is the sum of the probed sizes of
  the entries classified so far as requiring download (a skipped entry adds nothing, an
  unknown size adds 0), which after the preflight are exactly the entries of the job list
  that require download; \<^verbatim>\<open>overallDownloadedBytes\<close> is the sum over the host partitions of
  the bytes received for their finished and current entries, and once \<^verbatim>\<open>main\<close> has returned
  it is the sum of the body bytes of every attempted download, whatever its result. There
  is a run in which \<^verbatim>\<open>overallDownloadedBytes\<close> exceeds \<^verbatim>\<open>overallTotalBytes\<close> and the
  percentage exceeds 100.
\<close>

theorem byte_accounting:
  fixes P fsys evs
  defines "w \<equiv> run P evs (init fsys)"
  shows "overallTotalBytes (wstatus w)
        = sum_list (map (probe P) (filter (needs_download P fsys) (classified w)))
    \<and> (pc w = AwaitingQueues \<or> pc w = Returned \<longrightarrow> classified w = job_list P)
    \<and> modelsWithSize w = map (with_size P) (filter (needs_download P fsys) (classified w))
    \<and> overallDownloadedBytes (wstatus w) = sum_list (map (received_so_far P) (queues w))
    \<and> (pc w = Returned \<longrightarrow>
          overallDownloadedBytes (wstatus w) = sum_list (map (received P) (modelsWithSize w)))
    \<and> (\<exists>P' fs' evs'.
          overallTotalBytes (wstatus (run P' evs' (init fs')))
            < overallDownloadedBytes (wstatus (run P' evs' (init fs')))
          \<and> 100 < percent (wstatus (run P' evs' (init fs'))))"
proof -
  from invariants_run [of P fsys evs] have ip: "inv_pre P fsys w" and iq: "inv_queues P w"
    and ib: "inv_bytes P w"
    by (simp_all add: w_def)
  have 1: "overallTotalBytes (wstatus w)
        = sum_list (map (probe P) (filter (needs_download P fsys) (classified w)))"
    by (rule inv_preD(5) [OF ip])
  have 2: "pc w = AwaitingQueues \<or> pc w = Returned \<longrightarrow> classified w = job_list P"
    using inv_preD(9, 11) [OF ip] by auto
  have 3: "modelsWithSize w = map (with_size P) (filter (needs_download P fsys) (classified w))"
    by (rule inv_preD(3) [OF ip])
  have 4: "overallDownloadedBytes (wstatus w) = sum_list (map (received_so_far P) (queues w))"
    using ib by (simp add: inv_bytes_def)
  have 5: "pc w = Returned \<longrightarrow>
          overallDownloadedBytes (wstatus w) = sum_list (map (received P) (modelsWithSize w))"
    using downloaded_at_end [OF ib iq] by blast
  have "overallTotalBytes (wstatus (run platform_ex schedule_ex (init disk_ex)))
            < overallDownloadedBytes (wstatus (run platform_ex schedule_ex (init disk_ex)))
          \<and> 100 < percent (wstatus (run platform_ex schedule_ex (init disk_ex)))"
    using bytes_exceed_ex percent_ex by simp
  then have 6: "\<exists>P' fs' evs'.
          overallTotalBytes (wstatus (run P' evs' (init fs')))
            < overallDownloadedBytes (wstatus (run P' evs' (init fs')))
          \<and> 100 < percent (wstatus (run P' evs' (init fs')))"
    by blast
  from 1 2 3 4 5 6 show ?thesis by (intro conjI)
qed

theorem byte_accounting_witness:
  "pc (run platform_ex schedule_ex (init disk_ex)) = Returned
   \<and> overallTotalBytes (wstatus (run platform_ex schedule_ex (init disk_ex))) = 5
   \<and> sum_list (map (probe platform_ex)
        (filter (needs_download platform_ex disk_ex) (job_list platform_ex))) = 5
   \<and> overallDownloadedBytes (wstatus (run platform_ex schedule_ex (init disk_ex))) = 6
   \<and> sum_list (map (received platform_ex)
        (modelsWithSize (run platform_ex schedule_ex (init disk_ex)))) = 6"
proof -
  let ?w = "run platform_ex schedule_ex (init disk_ex)"
  have r: "pc ?w = Returned"
    by code_simp
  note T = byte_accounting [where P = platform_ex and evs = schedule_ex and fsys = disk_ex]
  from T have t1: "overallTotalBytes (wstatus ?w)
      = sum_list (map (probe platform_ex) (filter (needs_download platform_ex disk_ex) (classified ?w)))"
    by (rule conjunct1)
  from T r have t2: "classified ?w = job_list platform_ex"
    by blast
  from T r have t5: "overallDownloadedBytes (wstatus ?w)
      = sum_list (map (received platform_ex) (modelsWithSize ?w))"
    by blast
  from bytes_exceed_ex have b1: "overallTotalBytes (wstatus ?w) = 5"
    and b2: "overallDownloadedBytes (wstatus ?w) = 6"
    by simp_all
  from t1 t2 b1 have 3: "sum_list (map (probe platform_ex)
        (filter (needs_download platform_ex disk_ex) (job_list platform_ex))) = 5"
    by (simp only:)
  from t5 b2 have 5: "sum_list (map (received platform_ex) (modelsWithSize ?w)) = 6"
    by (simp only:)
  from r b1 3 b2 5 show ?thesis by (intro conjI)
qed

section \<open>Properties of the orchestration poller\<close>

lemma poll_append:
  "pollDownloadProgress u t (pre @ rest) =
     (case pollDownloadProgress u t pre of
        Some r \<Rightarrow> Some r
      | None \<Rightarrow> pollDownloadProgress u (last_success t pre) rest)"
proof (induction pre arbitrary: t)
  case Nil
  then show ?case by simp
next
  case (Cons p pre)
  obtain fetched now where p: "p = (fetched, now)" by (cases p)
  show ?case
    unfolding p by (cases fetched) (simp_all add: Cons.IH cong: option.case_cong)
qed

lemma poll_unresponsive_split:
  assumes "pollDownloadProgress u t polls = Some Unresponsive"
  shows "\<exists>pre now rest. polls = pre @ (None, now) # rest
           \<and> pollDownloadProgress u t pre = None \<and> u \<le> now - last_success t pre"
  using assms
proof (induction polls arbitrary: t)
  case Nil
  then show ?case by simp
next
  case (Cons p polls)
  obtain fetched now where p: "p = (fetched, now)" by (cases p)
  show ?case
  proof (cases fetched)
    case None
    show ?thesis
    proof (cases "u \<le> now - t")
      case True
      have "p # polls = [] @ (None, now) # polls \<and> pollDownloadProgress u t [] = None
          \<and> u \<le> now - last_success t []"
        using True p None by simp
      then show ?thesis by blast
    next
      case False
      with Cons.prems p None have "pollDownloadProgress u t polls = Some Unresponsive" by simp
      from Cons.IH [OF this] obtain pre now' rest
        where "polls = pre @ (None, now') # rest" "pollDownloadProgress u t pre = None"
          "u \<le> now' - last_success t pre" by blast
      then have "p # polls = (p # pre) @ (None, now') # rest
          \<and> pollDownloadProgress u t (p # pre) = None
          \<and> u \<le> now' - last_success t (p # pre)"
        using False p None by simp
      then show ?thesis by blast
    qed
  next
    case (Some st)
    with Cons.prems p have nt: "\<not> (phase st = Completed \<or> phase st = FailedPhase)"
      and "pollDownloadProgress u now polls = Some Unresponsive"
      by (simp_all split: if_splits)
    from Cons.IH [OF this(2)] obtain pre now' rest
      where "polls = pre @ (None, now') # rest" "pollDownloadProgress u now pre = None"
        "u \<le> now' - last_success now pre" by blast
    then have "p # polls = (p # pre) @ (None, now') # rest
        \<and> pollDownloadProgress u t (p # pre) = None
        \<and> u \<le> now' - last_success t (p # pre)"
      using nt p Some by simp
    then show ?thesis by blast
  qed
qed

lemma poll_unresponsive_iff:
  "(pollDownloadProgress u t polls = Some Unresponsive) =
     (\<exists>pre now rest. polls = pre @ (None, now) # rest
        \<and> pollDownloadProgress u t pre = None \<and> u \<le> now - last_success t pre)"
proof
  assume "pollDownloadProgress u t polls = Some Unresponsive"
  then show "\<exists>pre now rest. polls = pre @ (None, now) # rest
        \<and> pollDownloadProgress u t pre = None \<and> u \<le> now - last_success t pre"
    by (rule poll_unresponsive_split)
next
  assume "\<exists>pre now rest. polls = pre @ (None, now) # rest
        \<and> pollDownloadProgress u t pre = None \<and> u \<le> now - last_success t pre"
  then obtain pre now rest where "polls = pre @ (None, now) # rest"
    "pollDownloadProgress u t pre = None" "u \<le> now - last_success t pre" by blast
  then show "pollDownloadProgress u t polls = Some Unresponsive"
    by (simp add: poll_append)
qed

lemma last_success_cases:
  "(last_success t pre = t \<and> (\<forall>p \<in> set pre. fst p = None))
   \<or> (\<exists>before st fails. pre = before @ (Some st, last_success t pre) # fails
        \<and> (\<forall>p \<in> set fails. fst p = None))"
proof (induction pre arbitrary: t)
  case Nil
  then show ?case by simp
next
  case (Cons p pre)
  obtain fetched now where p: "p = (fetched, now)" by (cases p)
  show ?case
  proof (cases fetched)
    case None
    from Cons.IH [of t] show ?thesis
    proof
      assume "last_success t pre = t \<and> (\<forall>p \<in> set pre. fst p = None)"
      then show ?thesis using p None by simp
    next
      assume "\<exists>before st fails. pre = before @ (Some st, last_success t pre) # fails
        \<and> (\<forall>p \<in> set fails. fst p = None)"
      then obtain before st fails where "pre = before @ (Some st, last_success t pre) # fails"
        "\<forall>p \<in> set fails. fst p = None" by blast
      then have "p # pre = (p # before) @ (Some st, last_success t (p # pre)) # fails
          \<and> (\<forall>p \<in> set fails. fst p = None)"
        using p None by simp
      then show ?thesis by blast
    qed
  next
    case (Some st0)
    from Cons.IH [of now] show ?thesis
    proof
      assume a: "last_success now pre = now \<and> (\<forall>p \<in> set pre. fst p = None)"
      then have "p # pre = [] @ (Some st0, last_success t (p # pre)) # pre
          \<and> (\<forall>p \<in> set pre. fst p = None)"
        using p Some by simp
      then show ?thesis by blast
    next
      assume "\<exists>before st fails. pre = before @ (Some st, last_success now pre) # fails
        \<and> (\<forall>p \<in> set fails. fst p = None)"
      then obtain before st fails where "pre = before @ (Some st, last_success now pre) # fails"
        "\<forall>p \<in> set fails. fst p = None" by blast
      then have "p # pre = (p # before) @ (Some st, last_success t (p # pre)) # fails
          \<and> (\<forall>p \<in> set fails. fst p = None)"
        using p Some by simp
      then show ?thesis by blast
    qed
  qed
qed

lemma delete_then_result:
  assumes "delete_then e pid after acts = (r, acts')"
  shows "acts' = acts @ [DeletePod pid]
    \<and> ((r = after \<and> (\<exists>u. deleted e = Inr u)) \<or> (\<exists>err. r = Throw err \<and> deleted e = Inl err))"
  using assms by (auto simp: delete_then_def split: sum.splits)

lemma with_pod_retry:
  assumes "with_pod e pid tok acts = (Retry, acts')"
  shows "acts' \<noteq> [] \<and> last acts' = DeletePod pid
    \<and> (waitForPodRunning 180000 (wait_start e) (wait_script e) = Some (Inr False)
        \<or> pollDownloadProgress 180000 (poll_start e) (poll_script e) = Some Unresponsive)"
  using assms
  by (auto simp: with_pod_def dest!: delete_then_result
        split: option.splits sum.splits if_splits poll_result.splits)

lemma with_pod_polls:
  assumes "with_pod e pid tok acts = (r, acts')" and "PollStatus p t \<in> set acts'"
  shows "PollStatus p t \<in> set acts \<or> (p = pid \<and> t = tok)"
  using assms
  by (auto simp: with_pod_def dest!: delete_then_result
        split: option.splits sum.splits if_splits poll_result.splits)

lemma with_pod_keeps:
  assumes "with_pod e pid tok acts = (r, acts')"
  shows "set acts \<subseteq> set acts'"
  using assms
  by (auto simp: with_pod_def dest!: delete_then_result
        split: option.splits sum.splits if_splits poll_result.splits)

lemma create_then_result:
  assumes "create_then e acts = (r, acts')" and "r = Retry \<or> (\<exists>st. r = Final st) \<or> r = Hang"
  shows "CreateDownloaderPod (random_hex e) \<in> set acts'
    \<and> (\<exists>pod. created e = Inr pod
          \<and> (\<forall>p t. PollStatus p t \<in> set acts' \<longrightarrow>
                PollStatus p t \<in> set acts \<or> (p = pod_id pod \<and> t = random_hex e))
          \<and> (r = Retry \<longrightarrow> last acts' = DeletePod (pod_id pod)))"
proof (cases "created e")
  case (Inl err)
  with assms show ?thesis by (auto simp: create_then_def Let_def)
next
  case (Inr pod)
  with assms(1) have w: "with_pod e (pod_id pod) (random_hex e)
      (acts @ [CreateDownloaderPod (random_hex e)]) = (r, acts')"
    by (simp add: create_then_def Let_def)
  from with_pod_keeps [OF w] have 1: "CreateDownloaderPod (random_hex e) \<in> set acts'" by auto
  from with_pod_polls [OF w]
  have 2: "\<forall>p t. PollStatus p t \<in> set acts' \<longrightarrow>
      PollStatus p t \<in> set acts \<or> (p = pod_id pod \<and> t = random_hex e)"
    by auto
  have 3: "r = Retry \<longrightarrow> last acts' = DeletePod (pod_id pod)"
    using with_pod_retry w by blast
  from 1 2 3 Inr show ?thesis by blast
qed

lemma attempt_retry:
  assumes "attempt_body e a = (Retry, acts)"
  shows "acts \<noteq> [] \<and> (\<exists>pid. last acts = DeletePod pid)
    \<and> (waitForPodRunning 180000 (wait_start e) (wait_script e) = Some (Inr False)
        \<or> pollDownloadProgress 180000 (poll_start e) (poll_script e) = Some Unresponsive)"
  using assms
  by (auto simp: attempt_body_def create_then_def Let_def dest!: with_pod_retry
        split: sum.splits option.splits if_splits prod.splits)

lemma later_attempt:
  assumes a: "1 < a" and b: "attempt_body e a = (r, acts)"
    and r: "r = Retry \<or> (\<exists>st. r = Final st) \<or> r = Hang"
  shows "CreateDownloaderPod (random_hex e) \<in> set acts
    \<and> (\<exists>pod. created e = Inr pod
          \<and> (\<forall>p t. PollStatus p t \<in> set acts \<longrightarrow> p = pod_id pod \<and> t = random_hex e)
          \<and> (r = Retry \<longrightarrow> last acts = DeletePod (pod_id pod)))"
proof -
  from a b r obtain acts0 where c: "create_then e acts0 = (r, acts)"
    and n: "\<forall>p t. PollStatus p t \<notin> set acts0"
    by (auto simp: attempt_body_def Let_def split: sum.splits option.splits if_splits prod.splits)
  from create_then_result [OF c r] n show ?thesis by blast
qed

lemma attempts_beyond: "maxAttempts < a \<Longrightarrow> attempts E a = (Exit None, [])"
  by (simp add: attempts.simps)

lemma attempts_retry:
  assumes "a \<le> maxAttempts" and "attempt_body (E a) a = (Retry, acts)"
  shows "attempts E a = (fst (attempts E (a + 1)), acts @ snd (attempts E (a + 1)))"
  using assms by (subst attempts.simps) (simp add: split_beta)

lemma attempts_all_retry:
  "(\<And>i. a \<le> i \<Longrightarrow> i \<le> maxAttempts \<Longrightarrow> fst (attempt_body (E i) i) = Retry)
     \<Longrightarrow> fst (attempts E a) = Exit None"
proof (induction E a rule: attempts.induct)
  case (1 E attempt)
  show ?case
  proof (cases "attempt \<le> maxAttempts")
    case False
    then show ?thesis by (simp add: attempts_beyond)
  next
    case True
    from "1.prems" [OF order_refl True] obtain acts
      where b: "attempt_body (E attempt) attempt = (Retry, acts)"
      by (cases "attempt_body (E attempt) attempt") auto
    have "fst (attempts E (attempt + 1)) = Exit None"
      by (rule "1.IH" [OF True b [symmetric] refl]) (simp_all add: "1.prems")
    then show ?thesis by (simp add: attempts_retry [where E = E and a = attempt, OF True b])
  qed
qed

lemma show_maxAttempts: "show_nat maxAttempts = ''5''"
  by (simp add: maxAttempts_def show_nat.simps digit_char_def)

lemma setup_exhausted:
  assumes "\<And>i. 1 \<le> i \<Longrightarrow> i \<le> 5 \<Longrightarrow> fst (attempt_body (E i) i) = Retry"
  shows "fst (setup_download E)
    = Some (Inl (Error ''Download failed after 5 attempts due to unresponsive pods''))"
proof -
  have "fst (attempts E 1) = Exit None"
    by (rule attempts_all_retry) (simp add: assms maxAttempts_def)
  then show ?thesis
    by (cases "attempts E 1") (simp add: setup_download_def show_maxAttempts)
qed

lemma setup_entry_failure:
  assumes "attempts E 1 = (Exit (Some st), acts)" and "phase st = FailedPhase"
  shows "\<exists>msg. fst (setup_download E) = Some (Inl (Error (''Download failed: '' @ msg)))"
  using assms by (simp add: setup_download_def)

lemma messages_differ:
  "''Download failed after 5 attempts due to unresponsive pods'' \<noteq> ''Download failed: '' @ msg"
  by simp

lemma with_pod_gives_up:
  "(waitForPodRunning 180000 (wait_start e) (wait_script e) = Some (Inr False) \<longrightarrow>
      with_pod e pid tok acts0 =
        ((case deleted e of Inl err \<Rightarrow> Throw err | Inr _ \<Rightarrow> Retry), acts0 @ [DeletePod pid]))
   \<and> (waitForPodRunning 180000 (wait_start e) (wait_script e) = Some (Inr True)
        \<and> pollDownloadProgress 180000 (poll_start e) (poll_script e) = Some Unresponsive \<longrightarrow>
      with_pod e pid tok acts0 =
        ((case deleted e of Inl err \<Rightarrow> Throw err | Inr _ \<Rightarrow> Retry),
         acts0 @ [PollStatus pid tok, DeletePod pid]))"
  by (simp add: with_pod_def delete_then_def split: sum.splits)

text \<open>
  C8. In the poller a failed status poll does not by itself end the attempt: while the
  time since the last successful poll (since the start of the polling when none has
  succeeded) is below 180 seconds the loop goes on, and the attempt is given up as
  unresponsive exactly at the first failed poll at which that time has reached 180
  seconds, every poll since the last successful one having failed. An attempt is retried
  only when the host did not start or was unresponsive, and then its host has been
  deleted; in both cases the host is deleted and, the deletion returning, the attempt is
  retried. Every attempt after the first creates a host with a token generated for that
  attempt and polls that host with that token. After a retried attempt the next one runs,
  up to 5 attempts, and there is no sixth. When all 5 attempts are retried, \<^verbatim>\<open>setup\<close> throws
  the error "Download failed after 5 attempts due to unresponsive pods", which differs
  from the error thrown for failed entries.
\<close>

theorem poller_retry:
  "(now - lastSuccessTime < 180000 \<longrightarrow>
      pollDownloadProgress 180000 lastSuccessTime ((None, now) # polls)
        = pollDownloadProgress 180000 lastSuccessTime polls)
   \<and> ((pollDownloadProgress 180000 t0 script = Some Unresponsive) =
        (\<exists>pre now' rest. script = pre @ (None, now') # rest
           \<and> pollDownloadProgress 180000 t0 pre = None
           \<and> 180000 \<le> now' - last_success t0 pre))
   \<and> ((last_success t0 pre0 = t0 \<and> (\<forall>p \<in> set pre0. fst p = None))
        \<or> (\<exists>before st fails. pre0 = before @ (Some st, last_success t0 pre0) # fails
              \<and> (\<forall>p \<in> set fails. fst p = None)))
   \<and> (\<forall>acts. attempt_body e a = (Retry, acts) \<longrightarrow>
          acts \<noteq> [] \<and> (\<exists>pid. last acts = DeletePod pid)
          \<and> (waitForPodRunning 180000 (wait_start e) (wait_script e) = Some (Inr False)
              \<or> pollDownloadProgress 180000 (poll_start e) (poll_script e) = Some Unresponsive))
   \<and> ((waitForPodRunning 180000 (wait_start e) (wait_script e) = Some (Inr False) \<longrightarrow>
          with_pod e pid tok acts0 =
            ((case deleted e of Inl err \<Rightarrow> Throw err | Inr _ \<Rightarrow> Retry),
             acts0 @ [DeletePod pid]))
      \<and> (waitForPodRunning 180000 (wait_start e) (wait_script e) = Some (Inr True)
          \<and> pollDownloadProgress 180000 (poll_start e) (poll_script e) = Some Unresponsive \<longrightarrow>
          with_pod e pid tok acts0 =
            ((case deleted e of Inl err \<Rightarrow> Throw err | Inr _ \<Rightarrow> Retry),
             acts0 @ [PollStatus pid tok, DeletePod pid])))
   \<and> (\<forall>r acts. 1 < a \<and> attempt_body e a = (r, acts)
          \<and> (r = Retry \<or> (\<exists>st. r = Final st) \<or> r = Hang) \<longrightarrow>
          CreateDownloaderPod (random_hex e) \<in> set acts
          \<and> (\<exists>pod. created e = Inr pod
                \<and> (\<forall>p t. PollStatus p t \<in> set acts \<longrightarrow> p = pod_id pod \<and> t = random_hex e)
                \<and> (r = Retry \<longrightarrow> last acts = DeletePod (pod_id pod))))
   \<and> (\<forall>acts. i \<le> maxAttempts \<and> attempt_body (E i) i = (Retry, acts) \<longrightarrow>
          attempts E i = (fst (attempts E (i + 1)), acts @ snd (attempts E (i + 1))))
   \<and> (maxAttempts < i \<longrightarrow> attempts E i = (Exit None, []))
   \<and> maxAttempts = 5
   \<and> ((\<forall>j. 1 \<le> j \<and> j \<le> 5 \<longrightarrow> fst (attempt_body (E j) j) = Retry) \<longrightarrow>
        fst (setup_download E)
          = Some (Inl (Error ''Download failed after 5 attempts due to unresponsive pods'')))
   \<and> (\<forall>st acts. attempts E 1 = (Exit (Some st), acts) \<and> phase st = FailedPhase \<longrightarrow>
          (\<exists>msg. fst (setup_download E) = Some (Inl (Error (''Download failed: '' @ msg)))))
   \<and> (\<forall>msg. ''Download failed after 5 attempts due to unresponsive pods''
          \<noteq> ''Download failed: '' @ msg)"
  (is "?c1 \<and> ?c2 \<and> ?c3 \<and> ?c4 \<and> (?ga \<and> ?gb) \<and> ?c5 \<and> ?c6 \<and> ?c7 \<and> ?c8 \<and> ?c9 \<and> ?c10 \<and> ?c11")
proof -
  have 1: ?c1 by simp
  have 2: ?c2 by (rule poll_unresponsive_iff)
  have 3: ?c3 by (rule last_success_cases)
  have 4: ?c4 using attempt_retry by blast
  have ga: ?ga by (rule with_pod_gives_up [THEN conjunct1])
  have gb: ?gb by (rule with_pod_gives_up [THEN conjunct2])
  have 5: ?c5
  proof (intro allI impI, elim conjE)
    fix r acts
    assume "1 < a" "attempt_body e a = (r, acts)" "r = Retry \<or> (\<exists>st. r = Final st) \<or> r = Hang"
    then show "CreateDownloaderPod (random_hex e) \<in> set acts
          \<and> (\<exists>pod. created e = Inr pod
                \<and> (\<forall>p t. PollStatus p t \<in> set acts \<longrightarrow> p = pod_id pod \<and> t = random_hex e)
                \<and> (r = Retry \<longrightarrow> last acts = DeletePod (pod_id pod)))"
      by (rule later_attempt)
  qed
  have 6: ?c6
  proof (intro allI impI, elim conjE)
    fix acts
    assume "i \<le> maxAttempts" "attempt_body (E i) i = (Retry, acts)"
    then show "attempts E i = (fst (attempts E (i + 1)), acts @ snd (attempts E (i + 1)))"
      by (rule attempts_retry)
  qed
  have 7: ?c7 using attempts_beyond by blast
  have 8: ?c8 by (rule maxAttempts_def)
  have 9: ?c9
  proof
    assume "\<forall>j. 1 \<le> j \<and> j \<le> 5 \<longrightarrow> fst (attempt_body (E j) j) = Retry"
    then show "fst (setup_download E)
          = Some (Inl (Error ''Download failed after 5 attempts due to unresponsive pods''))"
      by (intro setup_exhausted) simp
  qed
  have 10: ?c10
  proof (intro allI impI, elim conjE)
    fix st acts
    assume "attempts E 1 = (Exit (Some st), acts)" "phase st = FailedPhase"
    then show "\<exists>msg. fst (setup_download E) = Some (Inl (Error (''Download failed: '' @ msg)))"
      by (rule setup_entry_failure)
  qed
  have 11: ?c11 by simp
  from 1 2 3 4 ga gb 5 6 7 8 9 10 11 show ?thesis by (intro conjI)
qed

theorem poller_retry_witness:
  "pollDownloadProgress 180000 0 [(None, 3000), (None, 180000)] = Some Unresponsive
   \<and> pollDownloadProgress 180000 0 [(None, 3000)] = None
   \<and> fst (setup_download attempt_env_ex)
       = Some (Inl (Error ''Download failed after 5 attempts due to unresponsive pods''))
   \<and> attempt_body (attempt_env_ex 2) 2
       = (Retry, [CreateDownloaderPod ''token2'', PollStatus ''pod2'' ''token2'', DeletePod ''pod2''])"
proof -
  have r: "fst (attempt_body (attempt_env_ex j) j) = Retry" for j
    by (simp add: attempt_env_ex_def attempt_body_def create_then_def with_pod_def
          delete_then_def Let_def)
  have b: "attempt_body (attempt_env_ex 2) 2
       = (Retry, [CreateDownloaderPod ''token2'', PollStatus ''pod2'' ''token2'', DeletePod ''pod2''])"
    by code_simp
  note T = poller_retry [where E = attempt_env_ex and now = 3000 and lastSuccessTime = 0
      and polls = "[(None, 180000)]"]
  from T [THEN conjunct1]
  have "pollDownloadProgress 180000 0 [(None, 3000), (None, 180000)]
      = pollDownloadProgress 180000 0 [(None, 180000)]"
    by simp
  then have 1: "pollDownloadProgress 180000 0 [(None, 3000), (None, 180000)] = Some Unresponsive"
    by simp
  have 2: "pollDownloadProgress 180000 0 [(None, 3000)] = None"
    by simp
  note T9 = T [THEN conjunct2, THEN conjunct2, THEN conjunct2, THEN conjunct2, THEN conjunct2,
      THEN conjunct2, THEN conjunct2, THEN conjunct2, THEN conjunct2, THEN conjunct1]
  have 3: "fst (setup_download attempt_env_ex)
       = Some (Inl (Error ''Download failed after 5 attempts due to unresponsive pods''))"
    by (rule mp [OF T9]) (simp add: r)
  from 1 2 3 b show ?thesis by (intro conjI)
qed

section \<open>Every run of the worker can be brought to its end\<close>

text \<open>From every state that a schedule reaches there is a continuation after which
  \<^verbatim>\<open>main\<close> has returned or the process has stopped on an unhandled rejection: the
  preflight loop is bounded by the entries left, the host partitions by the chunks of the
  response bodies left.\<close>

lemma run_Cons: "run P (ev # evs) w = run P evs (exec P ev w)"
  by (simp add: run_def)

lemma run_append: "run P (evs @ evs') w = run P evs' (run P evs w)"
  by (simp add: run_def)

lemma steps_left_decreases:
  "dl_step P m s fsys = (Continue s', fsys', callback) \<Longrightarrow> steps_left P m s' < steps_left P m s"
  by (cases "(P, m, s, fsys)" rule: dl_step.cases)
     (auto simp: steps_left_def body_chunks_def split: fetch_outcome.splits if_splits option.splits)

lemma steps_left_pos: "0 < steps_left P m s"
  by (cases s) (simp_all add: steps_left_def)

lemma work_decreases:
  assumes r: "qrest q = m # ms" and st: "dl_step P m (qstate q) fsys = (nxt, fsys', callback)"
    and na: "nxt \<noteq> Abort"
  shows "work P (queue_after q nxt) < work P q"
proof (cases nxt)
  case (Continue s')
  with steps_left_decreases [of P m "qstate q" fsys s' fsys' callback] st r show ?thesis
    by (simp add: work_def queue_after_def)
next
  case (Finish res)
  have "work P (queue_after q nxt) = sum_list (map (\<lambda>m'. body_chunks P m' + 4) ms)"
    using Finish r by (cases ms) (simp_all add: work_def queue_after_def steps_left_def)
  with steps_left_pos [of P m "qstate q"] r show ?thesis
    by (simp add: work_def)
next
  case Abort
  with na show ?thesis by simp
qed

lemma queues_finish:
  "pc w = AwaitingQueues \<Longrightarrow> \<not> crashed w \<Longrightarrow> sum_list (map (work P) (queues w)) = n \<Longrightarrow>
     \<exists>evs. crashed (run P evs w)
        \<or> (pc (run P evs w) = AwaitingQueues \<and> (\<forall>q \<in> set (queues (run P evs w)). qrest q = []))"
proof (induction n arbitrary: w rule: less_induct)
  case (less n)
  show ?case
  proof (cases "\<forall>q \<in> set (queues w). qrest q = []")
    case True
    with less.prems(1) have "pc (run P [] w) = AwaitingQueues
        \<and> (\<forall>q \<in> set (queues (run P [] w)). qrest q = [])"
      by (simp add: run_Nil)
    then show ?thesis by blast
  next
    case False
    then obtain k where k: "k < length (queues w)" and ne: "qrest (queues w ! k) \<noteq> []"
      by (auto simp: in_set_conv_nth)
    then obtain m ms where r: "qrest (queues w ! k) = m # ms"
      by (cases "qrest (queues w ! k)") auto
    obtain nxt disk' callback
      where st: "dl_step P m (qstate (queues w ! k)) (disk w) = (nxt, disk', callback)"
      by (rule dl_step_cases)
    let ?w1 = "exec P (Queue k) w"
    have w1: "?w1 = downloadDomainQueue_step P k w"
      using less.prems(1, 2) k by (simp add: exec_def)
    note F = queue_step_frame [OF r st]
    note E = queue_step_effect [OF r st]
    show ?thesis
    proof (cases "nxt = Abort")
      case True
      then have "crashed (run P [Queue k] w)"
        by (simp add: run_Cons run_Nil w1 E(1))
      then show ?thesis by blast
    next
      case False
      have c1: "\<not> crashed ?w1" using False less.prems(2) by (simp add: w1 E(1))
      have p1: "pc ?w1 = AwaitingQueues" using less.prems(1) by (simp add: w1 F(1))
      have "sum_list (map (work P) ((queues w)[k := queue_after (queues w ! k) nxt]))
            + work P (queues w ! k)
          = sum_list (map (work P) (queues w)) + work P (queue_after (queues w ! k) nxt)"
        by (rule sum_list_map_update [OF k])
      with work_decreases [OF r st False]
      have lt: "sum_list (map (work P) (queues ?w1)) < n"
        using less.prems(3) by (simp add: w1 E(2))
      from less.IH [OF lt p1 c1 refl] obtain evs
        where "crashed (run P evs ?w1)
          \<or> (pc (run P evs ?w1) = AwaitingQueues
              \<and> (\<forall>q \<in> set (queues (run P evs ?w1)). qrest q = []))"
        by blast
      then have "crashed (run P (Queue k # evs) w)
          \<or> (pc (run P (Queue k # evs) w) = AwaitingQueues
              \<and> (\<forall>q \<in> set (queues (run P (Queue k # evs) w)). qrest q = []))"
        by (simp only: run_Cons)
      then show ?thesis by blast
    qed
  qed
qed

lemma main_returns:
  assumes "pc w = AwaitingQueues" and "\<not> crashed w" and "\<forall>q \<in> set (queues w). qrest q = []"
  shows "pc (exec P Main w) = Returned"
  using assms by (simp add: exec_def main_step_finish)

lemma after_preflight_pc:
  "crashed (after_preflight P w) \<or> pc (after_preflight P w) = AwaitingQueues
     \<or> pc (after_preflight P w) = Returned"
  by (cases w rule: after_preflight_cases [where P = P])
     (simp_all add: after_preflight_none after_preflight_bad_url after_preflight_some)

lemma preflight_finishes:
  "pc w = InPreflight \<Longrightarrow> \<not> crashed w \<Longrightarrow> length (pending w) = n \<Longrightarrow> pending w \<noteq> [] \<Longrightarrow>
     \<exists>evs. crashed (run P evs w) \<or> pc (run P evs w) = AwaitingQueues
        \<or> pc (run P evs w) = Returned"
proof (induction n arbitrary: w)
  case 0
  then show ?case by simp
next
  case (Suc n)
  then obtain m ms where p: "pending w = m # ms" by (cases "pending w") auto
  have ex: "exec P Main w = main_step P w" using Suc.prems(2) by (simp add: exec_def)
  note st = main_step_classify [OF Suc.prems(1) p, of P]
  show ?case
  proof (cases "ms = []")
    case True
    with after_preflight_pc [of P "classified_one P m ms w"]
    have "crashed (run P [Main] w) \<or> pc (run P [Main] w) = AwaitingQueues
        \<or> pc (run P [Main] w) = Returned"
      by (simp add: run_Cons run_Nil ex st)
    then show ?thesis by blast
  next
    case False
    let ?w1 = "classified_one P m ms w"
    have w1: "exec P Main w = ?w1" using False by (simp add: ex st)
    have "pc ?w1 = InPreflight" "\<not> crashed ?w1" "length (pending ?w1) = n" "pending ?w1 \<noteq> []"
      using Suc.prems p False by (simp_all add: classified_one_def classify_frame)
    from Suc.IH [OF this] obtain evs
      where "crashed (run P evs ?w1) \<or> pc (run P evs ?w1) = AwaitingQueues
        \<or> pc (run P evs ?w1) = Returned"
      by blast
    then have "crashed (run P (Main # evs) w) \<or> pc (run P (Main # evs) w) = AwaitingQueues
        \<or> pc (run P (Main # evs) w) = Returned"
      by (simp only: run_Cons w1)
    then show ?thesis by blast
  qed
qed

lemma start_finishes:
  assumes "pc w = AtStart" and "\<not> crashed w"
  shows "\<exists>evs. crashed (run P evs w) \<or> pc (run P evs w) = AwaitingQueues
        \<or> pc (run P evs w) = Returned"
proof -
  have ex: "exec P Main w = main_step P w" using assms(2) by (simp add: exec_def)
  show ?thesis
  proof (cases "MODELS P")
    case NotSet
    then have "pc (run P [Main] w) = Returned"
      by (simp add: run_Cons run_Nil ex main_step_NotSet [OF assms(1)])
    then show ?thesis by blast
  next
    case BadJson
    then have "crashed (run P [Main] w)"
      by (simp add: run_Cons run_Nil ex main_step_BadJson [OF assms(1)])
    then show ?thesis by blast
  next
    case (Json ms)
    note st = main_step_Json [OF assms(1) Json]
    show ?thesis
    proof (cases "ms = []")
      case True
      with after_preflight_pc [of P "begun ms w"]
      have "crashed (run P [Main] w) \<or> pc (run P [Main] w) = AwaitingQueues
          \<or> pc (run P [Main] w) = Returned"
        by (simp add: run_Cons run_Nil ex st)
      then show ?thesis by blast
    next
      case False
      let ?w1 = "begun ms w"
      have w1: "exec P Main w = ?w1" using False by (simp add: ex st)
      have "pc ?w1 = InPreflight" "\<not> crashed ?w1" "length (pending ?w1) = length ms"
        "pending ?w1 \<noteq> []"
        using assms False by (simp_all add: begun_def)
      from preflight_finishes [OF this] obtain evs
        where "crashed (run P evs ?w1) \<or> pc (run P evs ?w1) = AwaitingQueues
          \<or> pc (run P evs ?w1) = Returned"
        by blast
      then have "crashed (run P (Main # evs) w) \<or> pc (run P (Main # evs) w) = AwaitingQueues
          \<or> pc (run P (Main # evs) w) = Returned"
        by (simp only: run_Cons w1)
      then show ?thesis by blast
    qed
  qed
qed

lemma downloads_finish:
  assumes "pc w = AwaitingQueues" and "\<not> crashed w"
  shows "\<exists>evs. crashed (run P evs w) \<or> pc (run P evs w) = Returned"
proof -
  from queues_finish [OF assms refl] obtain evs
    where e: "crashed (run P evs w)
        \<or> (pc (run P evs w) = AwaitingQueues \<and> (\<forall>q \<in> set (queues (run P evs w)). qrest q = []))"
    by blast
  show ?thesis
  proof (cases "crashed (run P evs w)")
    case True
    then show ?thesis by blast
  next
    case False
    with e have "pc (exec P Main (run P evs w)) = Returned"
      by (intro main_returns) simp_all
    then have "pc (run P (evs @ [Main]) w) = Returned"
      by (simp add: run_snoc)
    then show ?thesis by blast
  qed
qed

lemma run_can_end:
  assumes iph: "inv_phase w"
  shows "\<exists>evs. crashed (run P evs w) \<or> pc (run P evs w) = Returned"
proof (cases "crashed w")
  case True
  then have "crashed (run P [] w)" by (simp add: run_Nil)
  then show ?thesis by blast
next
  case False
  have early: "\<exists>evs. crashed (run P evs w) \<or> pc (run P evs w) = AwaitingQueues
        \<or> pc (run P evs w) = Returned"
    if "pc w = AtStart \<or> pc w = InPreflight"
    using that
  proof
    assume "pc w = AtStart"
    then show ?thesis using False by (rule start_finishes)
  next
    assume p: "pc w = InPreflight"
    from inv_phaseD(5) [OF iph p False] show ?thesis
      by (intro preflight_finishes [OF p False refl])
  qed
  show ?thesis
  proof (cases "pc w = AtStart \<or> pc w = InPreflight")
    case True
    from early [OF True] obtain evs
      where e: "crashed (run P evs w) \<or> pc (run P evs w) = AwaitingQueues
        \<or> pc (run P evs w) = Returned" by blast
    show ?thesis
    proof (cases "crashed (run P evs w) \<or> pc (run P evs w) = Returned")
      case True
      then show ?thesis by blast
    next
      case False
      with e have "pc (run P evs w) = AwaitingQueues" "\<not> crashed (run P evs w)" by simp_all
      from downloads_finish [OF this] obtain evs'
        where "crashed (run P evs' (run P evs w)) \<or> pc (run P evs' (run P evs w)) = Returned"
        by blast
      then have "crashed (run P (evs @ evs') w) \<or> pc (run P (evs @ evs') w) = Returned"
        by (simp only: run_append)
      then show ?thesis by blast
    qed
  next
    case F: False
    show ?thesis
    proof (cases "pc w = Returned")
      case True
      then have "pc (run P [] w) = Returned" by (simp add: run_Nil)
      then show ?thesis by blast
    next
      case False
      with F have "pc w = AwaitingQueues" by (cases "pc w") simp_all
      then show ?thesis using \<open>\<not> crashed w\<close> by (rule downloads_finish)
    qed
  qed
qed

lemma every_run_can_end:
  "\<exists>evs'. crashed (run P (evs @ evs') (init fsys)) \<or> pc (run P (evs @ evs') (init fsys)) = Returned"
proof -
  from invariants_run [of P fsys evs] have "inv_phase (run P evs (init fsys))" by simp
  from run_can_end [OF this, of P] show ?thesis by (simp only: run_append)
qed

section \<open>Properties of the reported throughput\<close>

subsection \<open>What the steps of the worker do to the samples\<close>

lemma getRecentSpeed_idem:
  "fst (getRecentSpeed t (snd (getRecentSpeed t ss))) = fst (getRecentSpeed t ss)"
  by (simp only: fst_getRecentSpeed snd_getRecentSpeed shift_old_idem)

lemma updateStatus_speed:
  "speed (wstatus (updateStatus P w)) = fst (getRecentSpeed (clock P (ticks w)) (speedSamples w))"
  "speedSamples (updateStatus P w) = snd (getRecentSpeed (clock P (ticks w)) (speedSamples w))"
  "ticks (updateStatus P w) = ticks w + 1"
  by (simp_all add: updateStatus_def case_prod_beta)

lemma last_reading_updateStatus: "last_reading P (updateStatus P w) = clock P (ticks w)"
  by (simp add: last_reading_def updateStatus_speed)

lemma inv_speed_updateStatus: "inv_speed P (updateStatus P w)"
  unfolding inv_speed_def last_reading_updateStatus
  by (simp add: updateStatus_speed getRecentSpeed_idem)

lemma inv_speed_frame:
  assumes "inv_speed P w" and "speed (wstatus w') = speed (wstatus w)"
    and "speedSamples w' = speedSamples w" and "ticks w' = ticks w"
  shows "inv_speed P w'"
  using assms by (simp add: inv_speed_def last_reading_def)

lemma inv_history_frame:
  assumes "inv_history P w h" and "speedSamples w' = speedSamples w" and "ticks w' = ticks w"
  shows "inv_history P w' h"
  using assms by (simp add: inv_history_def last_reading_def)

lemma samples_ready_frame:
  assumes "samples_ready P w h c" and "speedSamples w' = speedSamples w" and "ticks w' = ticks w"
  shows "samples_ready P w' h c"
  using assms by (simp add: samples_ready_def)

lemma history_ready:
  assumes m: "mono (clock P)" and i: "inv_history P w h"
  shows "samples_ready P w h (last_reading P w)"
proof -
  have "clock P (ticks w - 1) \<le> clock P (ticks w)"
    by (rule monoD [OF m]) simp
  with i show ?thesis
    by (auto simp: inv_history_def samples_ready_def last_reading_def)
qed

lemma inv_history_updateStatus:
  assumes "samples_ready P w h c"
  shows "inv_history P (updateStatus P w) h"
proof -
  let ?t = "clock P (ticks w)"
  from assms have c: "chronological h"
    and le: "\<forall>s \<in> set h. time s \<le> ?t"
    and ct: "c \<le> ?t"
    and ss: "speedSamples w = filter (\<lambda>s. c - time s \<le> 60000) h"
    by (simp_all add: samples_ready_def)
  have "chronological (speedSamples w)"
    unfolding ss by (rule chronological_filter [OF c])
  then have "speedSamples (updateStatus P w)
      = filter (\<lambda>s. ?t - time s \<le> 60000) (filter (\<lambda>s. c - time s \<le> 60000) h)"
    by (simp only: updateStatus_speed snd_getRecentSpeed shift_old_window ss)
  also have "\<dots> = filter (\<lambda>s. ?t - time s \<le> 60000) h"
    unfolding filter_filter using ct by (intro filter_cong) auto
  finally have s: "speedSamples (updateStatus P w) = filter (\<lambda>s. ?t - time s \<le> 60000) h" .
  show ?thesis
    unfolding inv_history_def last_reading_updateStatus s
    using le c by (simp add: updateStatus_speed)
qed

lemma samples_ready_recordBytes:
  assumes m: "mono (clock P)" and a: "samples_ready P w h c"
    and s: "speedSamples w' = recordBytes (clock P (ticks w)) n (speedSamples w)"
    and t: "ticks w' = ticks w + 1"
  shows "samples_ready P w' (h @ [\<lparr>time = clock P (ticks w), bytes = n\<rparr>]) c"
proof -
  have le: "clock P (ticks w) \<le> clock P (ticks w + 1)"
    by (rule monoD [OF m]) simp
  from a have "chronological (recordBytes (clock P (ticks w)) n h)"
    by (intro chronological_recordBytes) (simp_all add: samples_ready_def)
  then have 1: "chronological (h @ [\<lparr>time = clock P (ticks w), bytes = n\<rparr>])"
    by (simp add: recordBytes_def)
  from a le have 2: "\<forall>s \<in> set (h @ [\<lparr>time = clock P (ticks w), bytes = n\<rparr>]).
      time s \<le> clock P (ticks w + 1)"
    by (auto simp: samples_ready_def)
  from a le have 3: "c \<le> clock P (ticks w + 1)"
    by (simp add: samples_ready_def)
  from a have 4: "speedSamples w'
      = filter (\<lambda>s. c - time s \<le> 60000) (h @ [\<lparr>time = clock P (ticks w), bytes = n\<rparr>])"
    by (simp add: s recordBytes_def samples_ready_def)
  from 1 2 3 4 show ?thesis
    by (simp add: samples_ready_def t)
qed

lemma start_entry_history:
  assumes "mono (clock P)" and "inv_history P w h"
  shows "inv_history P (start_entry P m w) h"
  unfolding start_entry_def
  by (rule inv_history_updateStatus, rule samples_ready_frame [OF history_ready [OF assms]])
     simp_all

lemma finish_entry_history:
  assumes "mono (clock P)" and "inv_history P w h"
  shows "inv_history P (finish_entry P m r w) h"
  unfolding finish_entry_def
  by (rule inv_history_updateStatus, rule samples_ready_frame [OF history_ready [OF assms]])
     simp_all

lemma on_progress_history:
  assumes "mono (clock P)" and "inv_history P w h"
  shows "inv_history P (on_progress P n w) (h @ [\<lparr>time = clock P (ticks w), bytes = n\<rparr>])"
  unfolding on_progress_def
  by (rule inv_history_updateStatus,
      rule samples_ready_recordBytes [OF assms(1) history_ready [OF assms]])
     simp_all

lemma inv_rate_frame:
  assumes "inv_rate P w h" and "speed (wstatus w') = speed (wstatus w)"
    and "speedSamples w' = speedSamples w" and "ticks w' = ticks w"
  shows "inv_rate P w' h"
  using assms inv_speed_frame [of P w w'] inv_history_frame [of P w h w']
  by (simp add: inv_rate_def)

lemma inv_rate_start_entry: "inv_rate P w h \<Longrightarrow> inv_rate P (start_entry P m w) h"
  unfolding start_entry_def inv_rate_def
  using start_entry_history [of P w h m]
  by (simp add: inv_speed_updateStatus start_entry_def)

lemma inv_rate_finish_entry: "inv_rate P w h \<Longrightarrow> inv_rate P (finish_entry P m r w) h"
  unfolding inv_rate_def
  using finish_entry_history [of P w h m r]
  by (simp add: inv_speed_updateStatus finish_entry_def)

lemma inv_rate_on_progress:
  "inv_rate P w h \<Longrightarrow>
     inv_rate P (on_progress P n w) (h @ [\<lparr>time = clock P (ticks w), bytes = n\<rparr>])"
  unfolding inv_rate_def
  using on_progress_history [of P w h n]
  by (simp add: inv_speed_updateStatus on_progress_def)

lemma inv_rate_start_queues: "inv_rate P w h \<Longrightarrow> inv_rate P (start_queues P gs w) h"
proof (induction gs arbitrary: w)
  case Nil
  then show ?case by simp
next
  case (Cons g gs)
  have "inv_rate P (case g of [] \<Rightarrow> w | m # _ \<Rightarrow> start_entry P m w) h"
    using Cons.prems by (cases g) (simp_all add: inv_rate_start_entry)
  then have "inv_rate P ((case g of [] \<Rightarrow> w | m # _ \<Rightarrow> start_entry P m w)
      \<lparr>queues := queues w @ [\<lparr>qdone = [], qrest = g, qstate = Fetching\<rparr>]\<rparr>) h"
    by (rule inv_rate_frame) simp_all
  then show ?case by (simp add: Cons.IH)
qed

lemma inv_rate_classify: "inv_rate P w h \<Longrightarrow> inv_rate P (classify P m w) h"
  by (erule inv_rate_frame) (simp_all add: classify_def Let_def)

lemma inv_rate_after_preflight: "inv_rate P w h \<Longrightarrow> inv_rate P (after_preflight P w) h"
proof -
  assume i: "inv_rate P w h"
  have 1: "inv_rate P (w\<lparr>wstatus := (wstatus w)\<lparr>phase := Completed\<rparr>, pc := Returned\<rparr>) h"
    by (rule inv_rate_frame [OF i]) simp_all
  have 2: "inv_rate P (w\<lparr>wstatus := (wstatus w)\<lparr>phase := Downloading\<rparr>, crashed := True\<rparr>) h"
    by (rule inv_rate_frame [OF i]) simp_all
  have 3: "inv_rate P (w\<lparr>wstatus := (wstatus w)\<lparr>phase := Downloading\<rparr>, pc := AwaitingQueues\<rparr>) h"
    by (rule inv_rate_frame [OF i]) simp_all
  show ?thesis
    unfolding after_preflight_def Let_def
    using 1 2 inv_rate_start_queues [OF 3] by simp
qed

lemma inv_rate_main_step: "inv_rate P w h \<Longrightarrow> inv_rate P (main_step P w) h"
proof -
  assume i: "inv_rate P w h"
  show ?thesis
  proof (cases "pc w")
    case AtStart
    show ?thesis
    proof (cases "MODELS P")
      case NotSet
      show ?thesis
        unfolding main_step_NotSet [OF AtStart NotSet] by (rule inv_rate_frame [OF i]) simp_all
    next
      case BadJson
      show ?thesis
        unfolding main_step_BadJson [OF AtStart BadJson] by (rule inv_rate_frame [OF i]) simp_all
    next
      case (Json ms)
      have b: "inv_rate P (begun ms w) h"
        by (rule inv_rate_frame [OF i]) (simp_all add: begun_def)
      show ?thesis
        unfolding main_step_Json [OF AtStart Json]
        using b inv_rate_after_preflight [OF b] by (cases "ms = []") simp_all
    qed
  next
    case InPreflight
    show ?thesis
    proof (cases "pending w")
      case Nil
      with InPreflight have "main_step P w = w" by (simp add: main_step_def)
      with i show ?thesis by simp
    next
      case (Cons m ms)
      have c: "inv_rate P (classified_one P m ms w) h"
        unfolding classified_one_def
        by (rule inv_rate_frame [OF inv_rate_classify [OF i]]) simp_all
      show ?thesis
        unfolding main_step_classify [OF InPreflight Cons]
        using c inv_rate_after_preflight [OF c] by (cases "ms = []") simp_all
    qed
  next
    case AwaitingQueues
    have "inv_rate P (w\<lparr>wstatus := (wstatus w)\<lparr>phase :=
                  (if failed (serializeStatus (wstatus w)) > 0 then FailedPhase else Completed)\<rparr>,
               pc := Returned\<rparr>) h"
      by (rule inv_rate_frame [OF i]) simp_all
    with i AwaitingQueues show ?thesis by (simp add: main_step_def)
  next
    case Returned
    with i show ?thesis by (simp add: main_step_def)
  qed
qed

lemma inv_rate_queue_step:
  assumes i: "inv_rate P w h" and r: "qrest (queues w ! k) = m # ms"
  shows "inv_rate P (downloadDomainQueue_step P k w)
     (h @ (case snd (snd (dl_step P m (qstate (queues w ! k)) (disk w))) of
             None \<Rightarrow> []
           | Some n \<Rightarrow> [\<lparr>time = clock P (ticks w), bytes = n\<rparr>]))"
proof -
  obtain nxt disk' callback
    where st: "dl_step P m (qstate (queues w ! k)) (disk w) = (nxt, disk', callback)"
    by (rule dl_step_cases)
  let ?h = "h @ (case callback of None \<Rightarrow> [] | Some n \<Rightarrow> [\<lparr>time = clock P (ticks w), bytes = n\<rparr>])"
  have d: "inv_rate P (w\<lparr>disk := disk'\<rparr>) h"
    by (rule inv_rate_frame [OF i]) simp_all
  define w1 where "w1 = (case callback of
                          None \<Rightarrow> w\<lparr>disk := disk'\<rparr>
                        | Some n \<Rightarrow> on_progress P n (w\<lparr>disk := disk'\<rparr>))"
  have w1: "inv_rate P w1 ?h"
  proof (cases callback)
    case None
    with d show ?thesis by (simp add: w1_def)
  next
    case (Some n)
    with inv_rate_on_progress [OF d, of n] show ?thesis by (simp add: w1_def)
  qed
  have step: "downloadDomainQueue_step P k w =
      (case nxt of
         Abort \<Rightarrow> w1\<lparr>crashed := True\<rparr>
       | Continue s \<Rightarrow> w1\<lparr>queues := (queues w1)[k := (queues w ! k)\<lparr>qstate := s\<rparr>]\<rparr>
       | Finish res \<Rightarrow>
           (let w2 = finish_entry P m res w1;
                q' = \<lparr>qdone = qdone (queues w ! k) @ [m], qrest = ms, qstate = Fetching\<rparr>
            in case ms of
                 [] \<Rightarrow> w2\<lparr>queues := (queues w2)[k := q']\<rparr>
               | m' # _ \<Rightarrow> (start_entry P m' w2)\<lparr>queues := (queues w2)[k := q']\<rparr>))"
    unfolding w1_def by (simp add: downloadDomainQueue_step_def Let_def r st)
  have "inv_rate P (downloadDomainQueue_step P k w) ?h"
  proof (cases nxt)
    case (Continue s)
    show ?thesis unfolding step Continue
      by (simp, rule inv_rate_frame [OF w1]) simp_all
  next
    case Abort
    show ?thesis unfolding step Abort
      by (simp, rule inv_rate_frame [OF w1]) simp_all
  next
    case (Finish res)
    note f = inv_rate_finish_entry [OF w1, of m res]
    show ?thesis
    proof (cases ms)
      case Nil
      show ?thesis unfolding step Finish Nil
        by (simp add: Let_def, rule inv_rate_frame [OF f]) simp_all
    next
      case (Cons m' ms')
      show ?thesis unfolding step Finish Cons
        by (simp add: Let_def, rule inv_rate_frame [OF inv_rate_start_entry [OF f, of m']])
           simp_all
    qed
  qed
  then show ?thesis by (simp add: st)
qed

lemma inv_rate_exec: "inv_rate P w h \<Longrightarrow> inv_rate P (exec P ev w) (h @ pushed P ev w)"
proof (cases ev)
  case Main
  assume "inv_rate P w h"
  then show ?thesis
    by (simp add: Main exec_def pushed_def inv_rate_main_step)
next
  case (Queue k)
  assume i: "inv_rate P w h"
  show ?thesis
  proof (cases "crashed w \<or> pc w \<noteq> AwaitingQueues \<or> length (queues w) \<le> k")
    case True
    then have "exec P ev w = w" "pushed P ev w = []"
      by (auto simp: Queue exec_def pushed_def)
    with i show ?thesis by simp
  next
    case False
    then have e: "exec P ev w = downloadDomainQueue_step P k w"
      by (simp add: Queue exec_def)
    show ?thesis
    proof (cases "qrest (queues w ! k)")
      case Nil
      with False have "pushed P ev w = []" by (simp add: Queue pushed_def)
      with i show ?thesis by (simp add: e queue_step_idle [OF Nil])
    next
      case (Cons m ms)
      from False have "pushed P ev w =
          (case snd (snd (dl_step P m (qstate (queues w ! k)) (disk w))) of
             None \<Rightarrow> []
           | Some n \<Rightarrow> [\<lparr>time = clock P (ticks w), bytes = n\<rparr>])"
        by (simp add: Queue pushed_def Cons)
      with inv_rate_queue_step [OF i Cons] show ?thesis by (simp add: e)
    qed
  qed
qed

lemma inv_rate_init: "inv_rate P (init fsys) []"
  by (simp add: inv_rate_def inv_speed_def inv_history_def init_def status0_def
        getRecentSpeed_def chronological_def)

lemma recorded_Nil: "recorded P [] w = []"
  by (simp add: recorded_def)

lemma trace_run:
  "fst (foldl (\<lambda>(w', h) ev. (exec P ev w', h @ pushed P ev w')) (w, []) evs) = run P evs w"
  by (induction evs rule: rev_induct) (simp_all add: run_Nil run_snoc case_prod_beta)

lemma recorded_snoc:
  "recorded P (evs @ [ev]) w = recorded P evs w @ pushed P ev (run P evs w)"
  by (simp add: recorded_def case_prod_beta trace_run)

lemma inv_rate_run: "inv_rate P (run P evs (init fsys)) (recorded P evs (init fsys))"
  by (induction evs rule: rev_induct)
     (simp_all add: run_Nil run_snoc recorded_Nil recorded_snoc inv_rate_init inv_rate_exec)

lemma main_step_downloaded:
  "overallDownloadedBytes (wstatus (main_step P w)) = overallDownloadedBytes (wstatus w)"
proof (cases "pc w")
  case AtStart
  show ?thesis
  proof (cases "MODELS P")
    case NotSet
    show ?thesis unfolding main_step_NotSet [OF AtStart NotSet] by simp
  next
    case BadJson
    show ?thesis unfolding main_step_BadJson [OF AtStart BadJson] by simp
  next
    case (Json ms)
    show ?thesis unfolding main_step_Json [OF AtStart Json]
      by (simp add: after_preflight_frame begun_def)
  qed
next
  case InPreflight
  show ?thesis
  proof (cases "pending w")
    case Nil
    with InPreflight show ?thesis by (simp add: main_step_def)
  next
    case (Cons m ms)
    show ?thesis unfolding main_step_classify [OF InPreflight Cons]
      by (simp add: after_preflight_frame classified_one_def classify_frame)
  qed
next
  case AwaitingQueues
  then show ?thesis by (simp add: main_step_def)
next
  case Returned
  then show ?thesis by (simp add: main_step_def)
qed

lemma exec_downloaded:
  "overallDownloadedBytes (wstatus (exec P ev w))
     = overallDownloadedBytes (wstatus w) + sum_list (map bytes (pushed P ev w))"
proof (cases ev)
  case Main
  then show ?thesis by (simp add: exec_def pushed_def main_step_downloaded)
next
  case (Queue k)
  show ?thesis
  proof (cases "crashed w \<or> pc w \<noteq> AwaitingQueues \<or> length (queues w) \<le> k")
    case True
    then show ?thesis by (auto simp: Queue exec_def pushed_def)
  next
    case False
    then have e: "exec P ev w = downloadDomainQueue_step P k w"
      by (simp add: Queue exec_def)
    show ?thesis
    proof (cases "qrest (queues w ! k)")
      case Nil
      with False show ?thesis unfolding e by (simp add: queue_step_idle Queue pushed_def)
    next
      case (Cons m ms)
      obtain nxt disk' callback
        where st: "dl_step P m (qstate (queues w ! k)) (disk w) = (nxt, disk', callback)"
        by (rule dl_step_cases)
      from False have "pushed P ev w =
          (case callback of None \<Rightarrow> [] | Some n \<Rightarrow> [\<lparr>time = clock P (ticks w), bytes = n\<rparr>])"
        by (simp add: Queue pushed_def Cons st)
      then show ?thesis
        by (cases callback) (simp_all add: e queue_step_effect(3) [OF Cons st])
    qed
  qed
qed

lemma recorded_bytes:
  "sum_list (map bytes (recorded P evs (init fsys)))
     = overallDownloadedBytes (wstatus (run P evs (init fsys)))"
  by (induction evs rule: rev_induct)
     (simp_all add: run_Nil run_snoc recorded_Nil recorded_snoc exec_downloaded init_def status0_def)

subsection \<open>The reported throughput\<close>

text \<open>
  C9, as claimed: for every sample history, a sample older than the window never
  contributes to the reported throughput. \<^verbatim>\<open>getRecentSpeed\<close> shifts samples off the front
  of the list and stops at the first one that is recent enough. At the reading 100000 of
  the clock, the list of a sample of time 50000 followed by a sample of time 10 keeps
  both, and the sample of time 10, which is 99990 ms old, is counted in the figure. The
  worker reaches such a list when the clock runs backwards between two chunks: on the
  platform below, the status then reports 3 bytes in 50 seconds, of which 1 byte is that
  of the old sample.
\<close>

theorem reported_speed_counterexample:
  "snd (getRecentSpeed 100000 [\<lparr>time = 50000, bytes = 1\<rparr>, \<lparr>time = 10, bytes = 1000\<rparr>])
     = [\<lparr>time = 50000, bytes = 1\<rparr>, \<lparr>time = 10, bytes = 1000\<rparr>]
   \<and> fst (getRecentSpeed 100000 [\<lparr>time = 50000, bytes = 1\<rparr>, \<lparr>time = 10, bytes = 1000\<rparr>])
     = 1001 / 50
   \<and> recorded platform_back (take 9 schedule_ex) (init disk_ex)
     = [\<lparr>time = 50000, bytes = 2\<rparr>, \<lparr>time = 10, bytes = 1\<rparr>]
   \<and> last_reading platform_back (run platform_back (take 9 schedule_ex) (init disk_ex)) = 100000
   \<and> speedSamples (run platform_back (take 9 schedule_ex) (init disk_ex))
     = [\<lparr>time = 50000, bytes = 2\<rparr>, \<lparr>time = 10, bytes = 1\<rparr>]
   \<and> speed (wstatus (run platform_back (take 9 schedule_ex) (init disk_ex))) = 3 / 50"
proof -
  have 1: "snd (getRecentSpeed 100000 [\<lparr>time = 50000, bytes = 1\<rparr>, \<lparr>time = 10, bytes = 1000\<rparr>])
     = [\<lparr>time = 50000, bytes = 1\<rparr>, \<lparr>time = 10, bytes = 1000\<rparr>]"
    by (simp add: getRecentSpeed_def SPEED_WINDOW_MS_def Let_def)
  have 2: "fst (getRecentSpeed 100000 [\<lparr>time = 50000, bytes = 1\<rparr>, \<lparr>time = 10, bytes = 1000\<rparr>])
     = 1001 / 50"
    by (simp add: getRecentSpeed_def SPEED_WINDOW_MS_def Let_def)
  have 3: "recorded platform_back (take 9 schedule_ex) (init disk_ex)
     = [\<lparr>time = 50000, bytes = 2\<rparr>, \<lparr>time = 10, bytes = 1\<rparr>]"
    by code_simp
  have 4: "last_reading platform_back (run platform_back (take 9 schedule_ex) (init disk_ex)) = 100000"
    by code_simp
  have 5: "speedSamples (run platform_back (take 9 schedule_ex) (init disk_ex))
     = [\<lparr>time = 50000, bytes = 2\<rparr>, \<lparr>time = 10, bytes = 1\<rparr>]"
    by code_simp
  have 6: "speed (wstatus (run platform_back (take 9 schedule_ex) (init disk_ex))) = 3 / 50"
    by code_simp
  from 1 2 3 4 5 6 show ?thesis by (intro conjI)
qed

text \<open>
  C9, amended. The reported throughput is a trailing-window average over the last 60
  seconds, for sample histories in the order of recording under a clock that never runs
  backwards. For every such list of samples, a computation at the time \<open>t\<close> removes exactly
  the samples recorded more than 60000 ms before \<open>t\<close>, the first remaining sample is the
  oldest one, the figure is the sum of the bytes of the remaining samples divided by the
  seconds elapsed since the oldest remaining sample (0 when no time has elapsed, and 0
  for an empty window), and it is the figure of the list without the samples older than
  the window. At every point of every run of the worker, the throughput in the status is
  the figure that \<^verbatim>\<open>getRecentSpeed\<close> gives for the remaining samples at the last reading
  of the clock, and the samples recorded so far carry the bytes counted as downloaded;
  when the clock never runs backwards, the samples recorded so far are in order, the
  remaining samples are exactly those recorded at most 60000 ms before the last reading
  of the clock, and the throughput in the status is the sum of their bytes divided by the
  seconds from the oldest of them to that reading.
\<close>

theorem reported_speed_window:
  fixes P fsys evs t ss
  defines "w \<equiv> run P evs (init fsys)"
  defines "window \<equiv> filter (\<lambda>s. last_reading P w - time s \<le> 60000) (recorded P evs (init fsys))"
  shows "(chronological ss \<longrightarrow>
        snd (getRecentSpeed t ss) = filter (\<lambda>s. t - time s \<le> 60000) ss
      \<and> (\<forall>s \<in> set (snd (getRecentSpeed t ss)). time (hd (snd (getRecentSpeed t ss))) \<le> time s)
      \<and> fst (getRecentSpeed t ss) =
          (case filter (\<lambda>s. t - time s \<le> 60000) ss of
             [] \<Rightarrow> 0
           | oldest # _ \<Rightarrow>
               if t - time oldest > 0
               then real (sum_list (map bytes (filter (\<lambda>s. t - time s \<le> 60000) ss)))
                      / (real_of_int (t - time oldest) / 1000)
               else 0)
      \<and> fst (getRecentSpeed t ss) = fst (getRecentSpeed t (filter (\<lambda>s. t - time s \<le> 60000) ss)))
    \<and> speed (wstatus w) = fst (getRecentSpeed (last_reading P w) (speedSamples w))
    \<and> sum_list (map bytes (recorded P evs (init fsys))) = overallDownloadedBytes (wstatus w)
    \<and> (mono (clock P) \<longrightarrow>
          chronological (recorded P evs (init fsys))
        \<and> speedSamples w = window
        \<and> (\<forall>s \<in> set window. time (hd window) \<le> time s)
        \<and> speed (wstatus w) =
            (case window of
               [] \<Rightarrow> 0
             | oldest # _ \<Rightarrow>
                 if last_reading P w - time oldest > 0
                 then real (sum_list (map bytes window))
                        / (real_of_int (last_reading P w - time oldest) / 1000)
                 else 0))"
  (is "?fn \<and> ?sp \<and> ?by \<and> ?mach")
proof -
  let ?h = "recorded P evs (init fsys)"
  let ?L = "last_reading P w"
  from inv_rate_run [of P evs fsys]
  have isp: "inv_speed P w" and ih: "mono (clock P) \<longrightarrow> inv_history P w ?h"
    by (simp_all add: inv_rate_def w_def)
  have 1: ?fn
    using getRecentSpeed_chronological [of ss t] by blast
  have 2: ?sp
    using isp by (simp add: inv_speed_def)
  have 3: ?by
    unfolding w_def by (rule recorded_bytes)
  have 4: ?mach
  proof
    assume "mono (clock P)"
    with ih have h: "inv_history P w ?h" by simp
    then have c: "chronological ?h" and s: "speedSamples w = window"
      by (simp_all add: inv_history_def window_def)
    have cw: "chronological window"
      unfolding window_def by (rule chronological_filter [OF c])
    have id: "filter (\<lambda>s. ?L - time s \<le> 60000) window = window"
      by (simp add: window_def)
    note g = getRecentSpeed_chronological [OF cw, of ?L, unfolded id]
    have a: "\<forall>s \<in> set window. time (hd window) \<le> time s"
      using chronological_hd [OF cw] by blast
    have b: "speed (wstatus w) =
            (case window of
               [] \<Rightarrow> 0
             | oldest # _ \<Rightarrow>
                 if ?L - time oldest > 0
                 then real (sum_list (map bytes window)) / (real_of_int (?L - time oldest) / 1000)
                 else 0)"
      using 2 g by (simp only: s)
    from c s a b show "chronological ?h
        \<and> speedSamples w = window
        \<and> (\<forall>s \<in> set window. time (hd window) \<le> time s)
        \<and> speed (wstatus w) =
            (case window of
               [] \<Rightarrow> 0
             | oldest # _ \<Rightarrow>
                 if ?L - time oldest > 0
                 then real (sum_list (map bytes window)) / (real_of_int (?L - time oldest) / 1000)
                 else 0)"
      by (intro conjI)
  qed
  from 1 2 3 4 show ?thesis by (intro conjI)
qed

theorem reported_speed_window_witness:
  "chronological samples_ex \<and> mono (clock platform_ex)
   \<and> snd (getRecentSpeed 100000 samples_ex)
       = [\<lparr>time = 50000, bytes = 100\<rparr>, \<lparr>time = 90000, bytes = 200\<rparr>]
   \<and> fst (getRecentSpeed 100000 samples_ex) = 6
   \<and> recorded platform_ex (take 12 schedule_ex) (init disk_ex)
       = [\<lparr>time = 1040000, bytes = 2\<rparr>, \<lparr>time = 1080000, bytes = 1\<rparr>]
   \<and> last_reading platform_ex (run platform_ex (take 12 schedule_ex) (init disk_ex)) = 1140000
   \<and> speedSamples (run platform_ex (take 12 schedule_ex) (init disk_ex))
       = [\<lparr>time = 1080000, bytes = 1\<rparr>]
   \<and> speed (wstatus (run platform_ex (take 12 schedule_ex) (init disk_ex))) = 1 / 60"
proof -
  have c: "chronological samples_ex"
    by (simp add: chronological_def samples_ex_def)
  have m: "mono (clock platform_ex)"
    by (simp add: platform_ex_def clock_ex_def mono_def)
  have r: "recorded platform_ex (take 12 schedule_ex) (init disk_ex)
       = [\<lparr>time = 1040000, bytes = 2\<rparr>, \<lparr>time = 1080000, bytes = 1\<rparr>]"
    by code_simp
  have l: "last_reading platform_ex (run platform_ex (take 12 schedule_ex) (init disk_ex)) = 1140000"
    by code_simp
  from reported_speed_window [where P = platform_ex and evs = "take 12 schedule_ex"
      and fsys = disk_ex and t = 100000 and ss = samples_ex] c m r l
  show ?thesis
    by (simp add: samples_ex_def getRecentSpeed_def SPEED_WINDOW_MS_def Let_def)
qed

end
